theory Spec2Isabelle
  imports Main "HOL-Library.AList" "HOL-Library.Sublist" "HOL-Library.Extended_Nat"
begin

declare upt_rec_numeral [simp del]

section \<open>Python values\<close>

text \<open>
  A Python \<open>str\<close> is a sequence of Unicode code points; a code point is modelled as a
  natural number and \<open>bytes\<close> as a list of naturals below 256. A \<open>dict\<close> is an
  association list in insertion order: \<open>d[k] = v\<close> overwrites the value of a key that
  is present and appends a new key at the end, which is what \<open>AList.update\<close> does.
\<close>

type_synonym codepoint = nat

type_synonym str = "codepoint list"

type_synonym ('k, 'v) dict = "('k \<times> 'v) list"

datatype key = KeyInt int | KeyStr str

datatype error = ValueError | IndexError | KeyError key | UnicodeEncodeError | UnicodeDecodeError

definition str_of :: "string \<Rightarrow> str" where
  "str_of s = map of_char s"

definition dict_set :: "('k, 'v) dict \<Rightarrow> 'k \<Rightarrow> 'v \<Rightarrow> ('k, 'v) dict" where
  "dict_set d k v = AList.update k v d"

definition dict_get :: "('k, 'v) dict \<Rightarrow> 'k \<Rightarrow> 'v option" where
  "dict_get d k = map_of d k"

definition dict_mem :: "'k \<Rightarrow> ('k, 'v) dict \<Rightarrow> bool" where
  "dict_mem k d = (dict_get d k \<noteq> None)"

text \<open>\<open>dict(pairs)\<close> and \<open>{k: v for k, v in pairs}\<close>: the pairs are stored in order.\<close>

definition dict_of :: "('k \<times> 'v) list \<Rightarrow> ('k, 'v) dict" where
  "dict_of kvs = foldl (\<lambda>d (k, v). dict_set d k v) [] kvs"

text \<open>\<open>{v: k for k, v in d.items()}\<close>\<close>

definition dict_invert :: "('k, 'v) dict \<Rightarrow> ('v, 'k) dict" where
  "dict_invert d = dict_of (map (\<lambda>(k, v). (v, k)) d)"

section \<open>bytes_to_unicode\<close>

text \<open>
  \<open>bs = list(range(ord("!"), ord("~")+1)) + list(range(ord("\<exclamdown>"), ord("\<not>")+1))
        + list(range(ord("\<registered>"), ord("\<ydieresis>")+1))\<close>
  with \<open>ord("!") = 33\<close>, \<open>ord("~") = 126\<close>, then 161 to 172 and 174 to 255.
\<close>

definition printable_bytes :: "nat list" where
  "printable_bytes = [33..<126 + 1] @ [161..<172 + 1] @ [174..<255 + 1]"

text \<open>The loop \<open>for b in range(2**8)\<close>, with the lists \<open>bs\<close>, \<open>cs\<close> and the counter \<open>n\<close>.\<close>

fun b2u_loop :: "nat list \<Rightarrow> nat list \<Rightarrow> nat list \<Rightarrow> nat \<Rightarrow> nat list \<times> nat list" where
  "b2u_loop [] bs cs n = (bs, cs)"
| "b2u_loop (b # rest) bs cs n =
     (if b \<notin> set bs then b2u_loop rest (bs @ [b]) (cs @ [2 ^ 8 + n]) (n + 1)
      else b2u_loop rest bs cs n)"

definition bytes_to_unicode :: "(nat, codepoint) dict" where
  "bytes_to_unicode =
     (case b2u_loop [0..<2 ^ 8] printable_bytes printable_bytes 0 of
        (bs, cs) \<Rightarrow> dict_of (zip bs cs))"

section \<open>Byte pair merging\<close>

text \<open>
  A symbol is a string; a word is a tuple of symbols. \<open>get_pairs\<close> returns a Python
  set, modelled as a duplicate-free list: the order of its elements stands for the
  iteration order of the set, which the language does not fix.
\<close>

type_synonym symbol = str

type_synonym pair = "symbol \<times> symbol"

fun pairs_loop :: "symbol \<Rightarrow> symbol list \<Rightarrow> pair list \<Rightarrow> pair list" where
  "pairs_loop prev_char [] pairs = pairs"
| "pairs_loop prev_char (char # rest) pairs =
     pairs_loop char rest (List.insert (prev_char, char) pairs)"

text \<open>\<open>word[0]\<close> raises \<open>IndexError\<close> on the empty tuple.\<close>

definition get_pairs :: "symbol list \<Rightarrow> error + pair list" where
  "get_pairs word =
     (case word of
        [] \<Rightarrow> Inl IndexError
      | prev_char # rest \<Rightarrow> Inr (pairs_loop prev_char rest []))"

text \<open>\<open>self.bpe_ranks.get(pair, float('inf'))\<close>\<close>

definition rank_key :: "(pair, nat) dict \<Rightarrow> pair \<Rightarrow> enat" where
  "rank_key ranks p = (case dict_get ranks p of None \<Rightarrow> \<infinity> | Some r \<Rightarrow> enat r)"

text \<open>
  \<open>min(iterable, key=...)\<close> keeps the first element whose key is smallest and raises
  \<open>ValueError\<close> on an empty iterable.
\<close>

fun min_loop :: "('a \<Rightarrow> enat) \<Rightarrow> 'a \<Rightarrow> 'a list \<Rightarrow> 'a" where
  "min_loop k best [] = best"
| "min_loop k best (x # xs) = min_loop k (if k x < k best then x else best) xs"

definition py_min :: "('a \<Rightarrow> enat) \<Rightarrow> 'a list \<Rightarrow> error + 'a" where
  "py_min k xs = (case xs of [] \<Rightarrow> Inl ValueError | x # rest \<Rightarrow> Inr (min_loop k x rest))"

text \<open>\<open>word.index(first, i)\<close>: the least \<open>j \<ge> i\<close> with \<open>word[j] == first\<close>; \<open>None\<close> stands
  for the \<open>ValueError\<close> that the bare \<open>except\<close> catches.\<close>

definition index_from :: "'a list \<Rightarrow> 'a \<Rightarrow> nat \<Rightarrow> nat option" where
  "index_from word x i =
     (let j = i + length (takeWhile (\<lambda>y. y \<noteq> x) (drop i word))
      in if j < length word then Some j else None)"

lemma index_from_Some:
  "index_from word x i = Some j \<Longrightarrow> i \<le> j \<and> j < length word \<and> word ! j = x \<and>
     take (j - i) (drop i word) = takeWhile (\<lambda>y. y \<noteq> x) (drop i word)"
proof -
  assume a: "index_from word x i = Some j"
  let ?t = "takeWhile (\<lambda>y. y \<noteq> x) (drop i word)"
  from a have j: "j = i + length ?t" and lt: "j < length word"
    by (auto simp: index_from_def Let_def split: if_splits)
  have len: "length ?t < length (drop i word)"
    using j lt by simp
  have "drop i word ! length ?t = x"
    using nth_length_takeWhile [OF len] by simp
  then have "word ! j = x"
    using j lt by (simp add: add.commute)
  moreover have "take (j - i) (drop i word) = ?t"
    using j by (simp add: takeWhile_eq_take [symmetric])
  ultimately show ?thesis
    using j lt by simp
qed

lemma index_from_bounds: "index_from word x i = Some j \<Longrightarrow> i \<le> j \<and> j < length word"
  by (simp add: index_from_Some)

lemma index_from_None:
  "index_from word x i = None \<Longrightarrow> i \<le> length word \<Longrightarrow> x \<notin> set (drop i word)"
proof -
  assume a: "index_from word x i = None" and i: "i \<le> length word"
  let ?t = "takeWhile (\<lambda>y. y \<noteq> x) (drop i word)"
  from a have "\<not> i + length ?t < length word"
    by (auto simp: index_from_def Let_def split: if_splits)
  then have "length ?t = length (drop i word)"
    using i length_takeWhile_le [of "\<lambda>y. y \<noteq> x" "drop i word"] by simp
  then have "?t = drop i word"
    by (metis takeWhile_eq_take take_all order_refl)
  then have "\<forall>y\<in>set (drop i word). y \<noteq> x"
    by (metis set_takeWhileD)
  then show ?thesis by blast
qed

text \<open>The inner \<open>while i < len(word)\<close> loop of one pass, with \<open>i\<close> and \<open>new_word\<close>.\<close>

function merge_loop :: "symbol list \<Rightarrow> symbol \<Rightarrow> symbol \<Rightarrow> nat \<Rightarrow> symbol list \<Rightarrow> symbol list" where
  "merge_loop word first second i new_word =
     (if i < length word then
        (case index_from word first i of
           None \<Rightarrow> new_word @ drop i word
         | Some j \<Rightarrow>
             if word ! j = first \<and> j < length word - 1 \<and> word ! (j + 1) = second
             then merge_loop word first second (j + 2)
                    (new_word @ take (j - i) (drop i word) @ [first @ second])
             else merge_loop word first second (j + 1)
                    (new_word @ take (j - i) (drop i word) @ [word ! j]))
      else new_word)"
  by pat_completeness auto

termination
proof (relation "measure (\<lambda>(word, first, second, i, new_word). length word - i)")
  show "wf (measure (\<lambda>(word, first, second, i, new_word). length word - i))"
    by simp
next
  fix word :: "symbol list" and first second :: symbol and i :: nat and new_word :: "symbol list" and j :: nat
  assume "i < length word" and "index_from word first i = Some j"
  then show "((word, first, second, j + 2, new_word @ take (j - i) (drop i word) @ [first @ second]),
              (word, first, second, i, new_word)) \<in> measure (\<lambda>(word, first, second, i, new_word). length word - i)"
    using index_from_bounds [of word first i j] by auto
next
  fix word :: "symbol list" and first second :: symbol and i :: nat and new_word :: "symbol list" and j :: nat
  assume "i < length word" and "index_from word first i = Some j"
  then show "((word, first, second, j + 1, new_word @ take (j - i) (drop i word) @ [word ! j]),
              (word, first, second, i, new_word)) \<in> measure (\<lambda>(word, first, second, i, new_word). length word - i)"
    using index_from_bounds [of word first i j] by auto
qed

declare merge_loop.simps [simp del]

subsection \<open>One pass, as a recursion over the word\<close>

text \<open>
  One pass in the words of the specification: scanning left to right, every occurrence of
  the pair (left, right) is replaced by the combined symbol, and a symbol consumed by a
  merge is not used again.
\<close>

fun merge_pass :: "symbol \<Rightarrow> symbol \<Rightarrow> symbol list \<Rightarrow> symbol list" where
  "merge_pass l r (x # y # rest) =
     (if x = l \<and> y = r then (l @ r) # merge_pass l r rest else x # merge_pass l r (y # rest))"
| "merge_pass l r [x] = [x]"
| "merge_pass l r [] = []"

subsection \<open>Facts for the termination of the merge loop\<close>

lemma merge_pass_skip:
  "\<forall>x\<in>set xs. x \<noteq> l \<Longrightarrow> merge_pass l r (xs @ ys) = xs @ merge_pass l r ys"
proof (induction xs)
  case Nil
  show ?case by simp
next
  case (Cons x xs)
  then have x: "x \<noteq> l" and ih: "merge_pass l r (xs @ ys) = xs @ merge_pass l r ys"
    by simp_all
  show ?case
  proof (cases "xs @ ys")
    case Nil
    then show ?thesis by simp
  next
    case (Cons y zs)
    have "merge_pass l r (x # y # zs) = x # merge_pass l r (y # zs)"
      using x by simp
    then show ?thesis
      using ih Cons by simp
  qed
qed

lemma merge_pass_absent: "l \<notin> set xs \<Longrightarrow> merge_pass l r xs = xs"
  using merge_pass_skip [of xs l r "[]"] by auto

lemma merge_pass_keep:
  "(ys = [] \<or> hd ys \<noteq> r) \<Longrightarrow> merge_pass l r (l # ys) = l # merge_pass l r ys"
  by (cases ys) auto

lemma merge_loop_eq:
  "i \<le> length word \<Longrightarrow>
   merge_loop word first second i new_word = new_word @ merge_pass first second (drop i word)"
proof (induction word first second i new_word rule: merge_loop.induct)
  case (1 word first second i new_word)
  show ?case
  proof (cases "i < length word")
    case False
    with "1.prems" have "i = length word" by simp
    then show ?thesis
      by (simp add: merge_loop.simps [of word first second "length word" new_word])
  next
    case lt: True
    show ?thesis
    proof (cases "index_from word first i")
      case None
      then have "first \<notin> set (drop i word)"
        using "1.prems" by (rule index_from_None)
      then show ?thesis
        using lt None
        by (simp add: merge_loop.simps [of word first second i new_word] merge_pass_absent)
    next
      case (Some j)
      from index_from_Some [OF Some]
      have ij: "i \<le> j" and j: "j < length word" and wj: "word ! j = first"
        and tk: "take (j - i) (drop i word) = takeWhile (\<lambda>y. y \<noteq> first) (drop i word)"
        by simp_all
      let ?pre = "take (j - i) (drop i word)"
      have pre_ne: "\<forall>x\<in>set ?pre. x \<noteq> first"
        unfolding tk by (auto dest: set_takeWhileD)
      have "drop (j - i) (drop i word) = drop j word"
        using ij by simp
      then have split: "drop i word = ?pre @ drop j word"
        using append_take_drop_id [of "j - i" "drop i word"] by simp
      have dj: "drop j word = first # drop (j + 1) word"
        using Cons_nth_drop_Suc [OF j] wj by simp
      have skip: "merge_pass first second (drop i word) = ?pre @ merge_pass first second (drop j word)"
        using merge_pass_skip [OF pre_ne, of second "drop j word"] split by simp
      show ?thesis
      proof (cases "j < length word - 1 \<and> word ! (j + 1) = second")
        case True
        then have j2: "j + 2 \<le> length word" by auto
        have "Suc j < length word" using True by auto
        from Cons_nth_drop_Suc [OF this]
        have "drop (j + 1) word = second # drop (j + 2) word"
          using True by simp
        then have mp: "merge_pass first second (drop j word) =
            (first @ second) # merge_pass first second (drop (j + 2) word)"
          by (simp add: dj)
        have cond: "word ! j = first \<and> j < length word - 1 \<and> word ! (j + 1) = second"
          using wj True by blast
        have "merge_loop word first second i new_word =
            merge_loop word first second (j + 2) (new_word @ ?pre @ [first @ second])"
          by (subst merge_loop.simps) (simp only: lt Some cond if_True if_False option.case simp_thms)
        also have "\<dots> = (new_word @ ?pre @ [first @ second]) @ merge_pass first second (drop (j + 2) word)"
          using "1.IH"(1) [OF lt Some _ j2] wj True by simp
        finally show ?thesis
          by (simp add: skip mp)
      next
        case False
        have j1: "j + 1 \<le> length word" using j by simp
        have "drop (j + 1) word = [] \<or> hd (drop (j + 1) word) \<noteq> second"
        proof (cases "j + 1 < length word")
          case True
          then have "hd (drop (j + 1) word) = word ! (j + 1)"
            by (simp add: hd_drop_conv_nth)
          with False True show ?thesis by auto
        next
          case False
          then show ?thesis by simp
        qed
        then have mp: "merge_pass first second (drop j word) =
            first # merge_pass first second (drop (j + 1) word)"
          unfolding dj by (rule merge_pass_keep)
        have cond: "\<not> (word ! j = first \<and> j < length word - 1 \<and> word ! (j + 1) = second)"
          using False by blast
        have "merge_loop word first second i new_word =
            merge_loop word first second (j + 1) (new_word @ ?pre @ [word ! j])"
          by (subst merge_loop.simps) (simp only: lt Some cond if_True if_False option.case)
        also have "\<dots> = (new_word @ ?pre @ [word ! j]) @ merge_pass first second (drop (j + 1) word)"
          using "1.IH"(2) [OF lt Some _ j1] False by simp
        finally show ?thesis
          by (simp add: skip mp wj)
      qed
    qed
  qed
qed

lemma merge_loop_pass: "merge_loop word first second 0 [] = merge_pass first second word"
  using merge_loop_eq [of 0 word first second "[]"] by simp

lemma length_merge_pass: "length (merge_pass l r xs) \<le> length xs"
  by (induction l r xs rule: merge_pass.induct) auto

lemma length_merge_pass_less:
  "(l, r) \<in> set (zip xs (tl xs)) \<Longrightarrow> length (merge_pass l r xs) < length xs"
proof (induction l r xs rule: merge_pass.induct)
  case (1 l r x y rest)
  show ?case
  proof (cases "x = l \<and> y = r")
    case True
    then show ?thesis
      using length_merge_pass [of l r rest] by simp
  next
    case False
    with "1.prems" have "(l, r) \<in> set (zip (y # rest) (tl (y # rest)))"
      by auto
    from "1.IH"(2) [OF False this] have "length (merge_pass l r (y # rest)) < length (y # rest)" .
    with False show ?thesis by auto
  qed
qed simp_all

lemma set_pairs_loop:
  "set (pairs_loop prev_char rest pairs) = set pairs \<union> set (zip (prev_char # rest) rest)"
  by (induction rest arbitrary: prev_char pairs) auto

lemma get_pairs_set: "get_pairs word = Inr pairs \<Longrightarrow> set pairs = set (zip word (tl word))"
  by (auto simp: get_pairs_def set_pairs_loop split: list.splits)

lemma min_loop_mem: "min_loop k best xs \<in> insert best (set xs)"
  by (induction xs arbitrary: best) (auto split: if_splits)

lemma py_min_mem: "py_min k xs = Inr x \<Longrightarrow> x \<in> set xs"
  using min_loop_mem [of k "hd xs" "tl xs"]
  by (cases xs) (auto simp: py_min_def)

subsection \<open>The merge loop of bpe\<close>

text \<open>
  The \<open>while True\<close> loop, with its variables \<open>word\<close> and \<open>pairs\<close>. It ends at a
  \<open>break\<close>: the best pair is not in the rank table, or one symbol is left.
\<close>

function bpe_loop :: "(pair, nat) dict \<Rightarrow> symbol list \<Rightarrow> pair list \<Rightarrow> error + symbol list" where
  "bpe_loop ranks word pairs =
     (case py_min (rank_key ranks) pairs of
        Inl e \<Rightarrow> Inl e
      | Inr bigram \<Rightarrow>
          if \<not> dict_mem bigram ranks then Inr word
          else
            (let new_word = merge_loop word (fst bigram) (snd bigram) 0 [] in
             if length new_word = 1 then Inr new_word
             else
               (case get_pairs new_word of
                  Inl e \<Rightarrow> Inl e
                | Inr pairs' \<Rightarrow> bpe_loop ranks new_word pairs')))"
  by pat_completeness auto

termination
proof (relation "measure (\<lambda>(ranks, word, pairs).
          2 * length word + (if get_pairs word = Inr pairs then 0 else 1))")
  show "wf (measure (\<lambda>(ranks, word, pairs).
          2 * length word + (if get_pairs word = Inr pairs then 0 else (1::nat))))"
    by simp
next
  fix ranks :: "(pair, nat) dict" and word :: "symbol list" and pairs :: "pair list"
    and bigram :: pair and new_word :: "symbol list" and pairs' :: "pair list"
  assume m: "py_min (rank_key ranks) pairs = Inr bigram"
    and nw: "new_word = merge_loop word (fst bigram) (snd bigram) 0 []"
    and gp: "get_pairs new_word = Inr pairs'"
  have nw': "new_word = merge_pass (fst bigram) (snd bigram) word"
    using nw by (simp add: merge_loop_pass)
  have le: "length new_word \<le> length word"
    unfolding nw' by (rule length_merge_pass)
  have "2 * length new_word < 2 * length word + (if get_pairs word = Inr pairs then 0 else 1)"
  proof (cases "get_pairs word = Inr pairs")
    case True
    then have "bigram \<in> set (zip word (tl word))"
      using py_min_mem [OF m] get_pairs_set by blast
    then have "length new_word < length word"
      unfolding nw' using length_merge_pass_less [of "fst bigram" "snd bigram" word] by simp
    then show ?thesis by simp
  next
    case False
    then show ?thesis using le by simp
  qed
  then show "((ranks, new_word, pairs'), (ranks, word, pairs))
      \<in> measure (\<lambda>(ranks, word, pairs). 2 * length word + (if get_pairs word = Inr pairs then 0 else 1))"
    using gp by simp
qed

declare bpe_loop.simps [simp del]

section \<open>Strings\<close>

text \<open>\<open>sep.join(xs)\<close>\<close>

fun str_join :: "str \<Rightarrow> str list \<Rightarrow> str" where
  "str_join sep [] = []"
| "str_join sep [x] = x"
| "str_join sep (x # y # rest) = x @ sep @ str_join sep (y # rest)"

text \<open>
  \<open>text.split(sep)\<close> for a non-empty separator (both call sites pass a literal): the
  occurrences of \<open>sep\<close> are found from left to right and do not overlap; the result has
  one fragment more than there are occurrences.
\<close>

fun str_split :: "str \<Rightarrow> str \<Rightarrow> str list" where
  "str_split sep [] = [[]]"
| "str_split sep (c # cs) =
     (if sep \<noteq> [] \<and> prefix sep (c # cs) then [] # str_split sep (drop (length sep - 1) cs)
      else (case str_split sep cs of [] \<Rightarrow> [[c]] | f # fs \<Rightarrow> (c # f) # fs))"

definition space :: codepoint where
  "space = 32"

definition endoftext :: str where
  "endoftext = str_of ''<|endoftext|>''"

section \<open>UTF-8\<close>

text \<open>
  \<open>str.encode('utf-8')\<close>: one to four bytes for each code point; a surrogate code point
  (U+D800 to U+DFFF) raises \<open>UnicodeEncodeError\<close>. Python has no code point above
  U+10FFFF; the model answers with the same error there.
\<close>

definition utf8_char :: "codepoint \<Rightarrow> error + nat list" where
  "utf8_char c =
     (if c < 0x80 then Inr [c]
      else if c < 0x800 then Inr [0xC0 + c div 64, 0x80 + c mod 64]
      else if c < 0x10000 then
        (if 0xD800 \<le> c \<and> c \<le> 0xDFFF then Inl UnicodeEncodeError
         else Inr [0xE0 + c div 4096, 0x80 + c div 64 mod 64, 0x80 + c mod 64])
      else if c < 0x110000 then
        Inr [0xF0 + c div 262144, 0x80 + c div 4096 mod 64, 0x80 + c div 64 mod 64, 0x80 + c mod 64]
      else Inl UnicodeEncodeError)"

fun utf8_encode :: "str \<Rightarrow> error + nat list" where
  "utf8_encode [] = Inr []"
| "utf8_encode (c # cs) =
     (case utf8_char c of
        Inl e \<Rightarrow> Inl e
      | Inr bs \<Rightarrow> (case utf8_encode cs of Inl e \<Rightarrow> Inl e | Inr rest \<Rightarrow> Inr (bs @ rest)))"

text \<open>
  \<open>bytes.decode('utf-8', errors=...)\<close>. One step reads the sequence at the head of the
  input: a code point and the number of bytes read, or an ill-formed sequence and the
  number of bytes of it that the error handler replaces (the longest prefix that could
  start a well-formed sequence, at least one byte).
\<close>

datatype utf8_step = Decoded codepoint nat | Illformed nat

definition continuation :: "nat \<Rightarrow> bool" where
  "continuation b = (0x80 \<le> b \<and> b \<le> 0xBF)"

text \<open>The range of the second byte, which excludes overlong forms, surrogates and code
  points above U+10FFFF.\<close>

definition second_ok :: "nat \<Rightarrow> nat \<Rightarrow> bool" where
  "second_ok b0 b1 =
     (if b0 = 0xE0 then 0xA0 \<le> b1 \<and> b1 \<le> 0xBF
      else if b0 = 0xED then 0x80 \<le> b1 \<and> b1 \<le> 0x9F
      else if b0 = 0xF0 then 0x90 \<le> b1 \<and> b1 \<le> 0xBF
      else if b0 = 0xF4 then 0x80 \<le> b1 \<and> b1 \<le> 0x8F
      else continuation b1)"

definition utf8_next :: "nat list \<Rightarrow> utf8_step" where
  "utf8_next bs =
     (case bs of
        [] \<Rightarrow> Illformed 0
      | b0 # r1 \<Rightarrow>
          if b0 < 0x80 then Decoded b0 1
          else if 0xC2 \<le> b0 \<and> b0 \<le> 0xDF then
            (case r1 of
               [] \<Rightarrow> Illformed 1
             | b1 # r2 \<Rightarrow>
                 if continuation b1 then Decoded ((b0 - 0xC0) * 64 + (b1 - 0x80)) 2
                 else Illformed 1)
          else if 0xE0 \<le> b0 \<and> b0 \<le> 0xEF then
            (case r1 of
               [] \<Rightarrow> Illformed 1
             | b1 # r2 \<Rightarrow>
                 if \<not> second_ok b0 b1 then Illformed 1
                 else
                   (case r2 of
                      [] \<Rightarrow> Illformed 2
                    | b2 # r3 \<Rightarrow>
                        if continuation b2
                        then Decoded ((b0 - 0xE0) * 4096 + (b1 - 0x80) * 64 + (b2 - 0x80)) 3
                        else Illformed 2))
          else if 0xF0 \<le> b0 \<and> b0 \<le> 0xF4 then
            (case r1 of
               [] \<Rightarrow> Illformed 1
             | b1 # r2 \<Rightarrow>
                 if \<not> second_ok b0 b1 then Illformed 1
                 else
                   (case r2 of
                      [] \<Rightarrow> Illformed 2
                    | b2 # r3 \<Rightarrow>
                        if \<not> continuation b2 then Illformed 2
                        else
                          (case r3 of
                             [] \<Rightarrow> Illformed 3
                           | b3 # r4 \<Rightarrow>
                               if continuation b3
                               then Decoded ((b0 - 0xF0) * 262144 + (b1 - 0x80) * 4096
                                      + (b2 - 0x80) * 64 + (b3 - 0x80)) 4
                               else Illformed 3)))
          else Illformed 1)"

text \<open>The error handlers \<open>'strict'\<close>, \<open>'replace'\<close> (the default of \<open>Encoder\<close>) and
  \<open>'ignore'\<close>.\<close>

datatype errors_policy = Strict | Replace | Ignore

fun utf8_decode :: "errors_policy \<Rightarrow> nat list \<Rightarrow> error + str" where
  "utf8_decode pol [] = Inr []"
| "utf8_decode pol (b # bs) =
     (case utf8_next (b # bs) of
        Decoded c n \<Rightarrow>
          (case utf8_decode pol (drop (n - 1) bs) of Inl e \<Rightarrow> Inl e | Inr cs \<Rightarrow> Inr (c # cs))
      | Illformed n \<Rightarrow>
          (case pol of
             Strict \<Rightarrow> Inl UnicodeDecodeError
           | Replace \<Rightarrow>
               (case utf8_decode pol (drop (n - 1) bs) of
                  Inl e \<Rightarrow> Inl e
                | Inr cs \<Rightarrow> Inr (0xFFFD # cs))
           | Ignore \<Rightarrow> utf8_decode pol (drop (n - 1) bs)))"

section \<open>The pre-tokenization pattern\<close>

text \<open>
  The classes \<open>\p{L}\<close>, \<open>\p{N}\<close> and \<open>\s\<close> are tables of the \<open>regex\<close> library; they are
  parameters of the model.
\<close>

record charclass =
  isL :: "codepoint \<Rightarrow> bool"
  isN :: "codepoint \<Rightarrow> bool"
  isS :: "codepoint \<Rightarrow> bool"

text \<open>
  A matcher answers, for the text at the current position, with the length of its match.
  A literal; \<open>C+\<close>, greedy; \<open> ?C+\<close>, where the optional space is tried first and given
  back when no \<open>C\<close> follows it; \<open>\s+(?!\S)\<close>, where the longest run of white space is
  shortened until the next character is not a non-space.
\<close>

definition re_lit :: "str \<Rightarrow> str \<Rightarrow> nat option" where
  "re_lit l s = (if prefix l s then Some (length l) else None)"

definition re_plus :: "(codepoint \<Rightarrow> bool) \<Rightarrow> str \<Rightarrow> nat option" where
  "re_plus C s = (let n = length (takeWhile C s) in if 0 < n then Some n else None)"

definition re_opt_space_plus :: "(codepoint \<Rightarrow> bool) \<Rightarrow> str \<Rightarrow> nat option" where
  "re_opt_space_plus C s =
     (case s of
        [] \<Rightarrow> None
      | c # rest \<Rightarrow>
          if c = space then
            (case re_plus C rest of Some n \<Rightarrow> Some (Suc n) | None \<Rightarrow> re_plus C s)
          else re_plus C s)"

definition re_space_lookahead :: "(codepoint \<Rightarrow> bool) \<Rightarrow> str \<Rightarrow> nat option" where
  "re_space_lookahead S s =
     (let n = length (takeWhile S s) in
      if n = 0 then None
      else if n = length s then Some n
      else if 2 \<le> n then Some (n - 1)
      else None)"

fun re_alt :: "nat option list \<Rightarrow> nat option" where
  "re_alt [] = None"
| "re_alt (Some n # ms) = Some n"
| "re_alt (None # ms) = re_alt ms"

definition apostrophe :: codepoint where
  "apostrophe = 39"

text \<open>\<open>'s|'t|'re|'ve|'m|'ll|'d| ?\p{L}+| ?\p{N}+| ?[^\s\p{L}\p{N}]+|\s+(?!\S)|\s+\<close>\<close>

definition pat_match :: "charclass \<Rightarrow> str \<Rightarrow> nat option" where
  "pat_match cc s =
     re_alt
       [re_lit (apostrophe # str_of ''s'') s,
        re_lit (apostrophe # str_of ''t'') s,
        re_lit (apostrophe # str_of ''re'') s,
        re_lit (apostrophe # str_of ''ve'') s,
        re_lit (apostrophe # str_of ''m'') s,
        re_lit (apostrophe # str_of ''ll'') s,
        re_lit (apostrophe # str_of ''d'') s,
        re_opt_space_plus (isL cc) s,
        re_opt_space_plus (isN cc) s,
        re_opt_space_plus (\<lambda>c. \<not> isS cc c \<and> \<not> isL cc c \<and> \<not> isN cc c) s,
        re_space_lookahead (isS cc) s,
        re_plus (isS cc) s]"

text \<open>
  \<open>re.findall(pat, part)\<close>: at each position the pattern is tried; a match is reported
  and the scan goes on behind it; where nothing matches, one character is skipped. (An
  empty match would be reported and the scan would move on by one character.)
\<close>

fun findall :: "charclass \<Rightarrow> str \<Rightarrow> str list" where
  "findall cc [] = []"
| "findall cc (c # cs) =
     (case pat_match cc (c # cs) of
        None \<Rightarrow> findall cc cs
      | Some n \<Rightarrow> take n (c # cs) # findall cc (drop (n - 1) cs))"

section \<open>The Encoder\<close>

record Encoder =
  encoder :: "(str, int) dict"
  decoder :: "(int, str) dict"
  errors :: errors_policy
  byte_encoder :: "(nat, codepoint) dict"
  byte_decoder :: "(codepoint, nat) dict"
  bpe_ranks :: "(pair, nat) dict"
  cache :: "(str, str) dict"
  pat :: charclass

text \<open>\<open>d[k]\<close> raises \<open>KeyError(k)\<close> for a key that is absent.\<close>

definition lookup :: "('k, 'v) dict \<Rightarrow> 'k \<Rightarrow> key \<Rightarrow> error + 'v" where
  "lookup d k shown = (case dict_get d k of None \<Rightarrow> Inl (KeyError shown) | Some v \<Rightarrow> Inr v)"

text \<open>A comprehension whose element expression can raise: the first error ends it.\<close>

fun map_err :: "('a \<Rightarrow> error + 'b) \<Rightarrow> 'a list \<Rightarrow> error + 'b list" where
  "map_err f [] = Inr []"
| "map_err f (x # xs) =
     (case f x of
        Inl e \<Rightarrow> Inl e
      | Inr y \<Rightarrow> (case map_err f xs of Inl e \<Rightarrow> Inl e | Inr ys \<Rightarrow> Inr (y # ys)))"

text \<open>
  \<open>__init__\<close>: the fields are set, then the vocabulary is checked for the separator.
  The compiled pattern is represented by the character classes it uses.
\<close>

definition Encoder_init ::
    "(str, int) dict \<Rightarrow> pair list \<Rightarrow> errors_policy \<Rightarrow> charclass \<Rightarrow> error + Encoder" where
  "Encoder_init enc bpe_merges errs cc =
     (let self = \<lparr>encoder = enc,
                 decoder = dict_invert enc,
                 errors = errs,
                 byte_encoder = bytes_to_unicode,
                 byte_decoder = dict_invert bytes_to_unicode,
                 bpe_ranks = dict_of (zip bpe_merges [0..<length bpe_merges]),
                 cache = [],
                 pat = cc\<rparr>
      in if \<not> dict_mem endoftext (encoder self) then Inl ValueError else Inr self)"

text \<open>\<open>while len(self.cache) > 1000: self.cache.popitem()\<close>; \<open>popitem\<close> removes the entry
  that was inserted last.\<close>

function evict :: "('k, 'v) dict \<Rightarrow> ('k, 'v) dict" where
  "evict c = (if 1000 < length c then evict (butlast c) else c)"
  by pat_completeness auto

termination
  by (relation "measure length") auto

declare evict.simps [simp del]

definition bpe :: "Encoder \<Rightarrow> str \<Rightarrow> error + (str \<times> Encoder)" where
  "bpe self token =
     (case dict_get (cache self) token of
        Some cached \<Rightarrow> Inr (cached, self)
      | None \<Rightarrow>
          (let word = map (\<lambda>c. [c]) token in
           case get_pairs word of
             Inl e \<Rightarrow> Inl e
           | Inr pairs \<Rightarrow>
               if pairs = [] then Inr (token, self)
               else
                 (case bpe_loop (bpe_ranks self) word pairs of
                    Inl e \<Rightarrow> Inl e
                  | Inr word' \<Rightarrow>
                      (let joined = str_join [space] word' in
                       Inr (joined,
                            self\<lparr>cache := evict (dict_set (cache self) token joined)\<rparr>)))))"

text \<open>The inner loop of \<open>encode\<close>, over the chunks of one part.\<close>

fun encode_chunks :: "Encoder \<Rightarrow> str list \<Rightarrow> int list \<Rightarrow> error + (int list \<times> Encoder)" where
  "encode_chunks self [] bpe_tokens = Inr (bpe_tokens, self)"
| "encode_chunks self (token # rest) bpe_tokens =
     (case utf8_encode token of
        Inl e \<Rightarrow> Inl e
      | Inr bs \<Rightarrow>
          (case map_err (\<lambda>b. lookup (byte_encoder self) b (KeyInt (int b))) bs of
             Inl e \<Rightarrow> Inl e
           | Inr token' \<Rightarrow>
               (case bpe self token' of
                  Inl e \<Rightarrow> Inl e
                | Inr (merged, self') \<Rightarrow>
                    (case map_err (\<lambda>t. lookup (encoder self') t (KeyStr t))
                            (str_split [space] merged) of
                       Inl e \<Rightarrow> Inl e
                     | Inr ids \<Rightarrow> encode_chunks self' rest (bpe_tokens @ ids)))))"

text \<open>The outer loop, over the parts, with \<open>mid\<close> and \<open>bpe_tokens\<close>.\<close>

fun encode_parts ::
    "Encoder \<Rightarrow> str list \<Rightarrow> int option \<Rightarrow> int list \<Rightarrow> error + (int list \<times> Encoder)" where
  "encode_parts self [] mid bpe_tokens = Inr (bpe_tokens, self)"
| "encode_parts self (part # parts) mid bpe_tokens =
     (case mid of
        Some m \<Rightarrow>
          (case encode_chunks self (findall (pat self) part) (bpe_tokens @ [m]) of
             Inl e \<Rightarrow> Inl e
           | Inr (toks, self') \<Rightarrow> encode_parts self' parts (Some m) toks)
      | None \<Rightarrow>
          (case lookup (encoder self) endoftext (KeyStr endoftext) of
             Inl e \<Rightarrow> Inl e
           | Inr m \<Rightarrow>
               (case encode_chunks self (findall (pat self) part) bpe_tokens of
                  Inl e \<Rightarrow> Inl e
                | Inr (toks, self') \<Rightarrow> encode_parts self' parts (Some m) toks)))"

definition encode :: "Encoder \<Rightarrow> str \<Rightarrow> error + (int list \<times> Encoder)" where
  "encode self text = encode_parts self (str_split endoftext text) None []"

text \<open>\<open>bytearray(xs)\<close> raises \<open>ValueError\<close> when an element is not in \<open>range(256)\<close>.\<close>

definition decode :: "Encoder \<Rightarrow> int list \<Rightarrow> error + str" where
  "decode self tokens =
     (case map_err (\<lambda>token. lookup (decoder self) token (KeyInt token)) tokens of
        Inl e \<Rightarrow> Inl e
      | Inr symbols \<Rightarrow>
          (case map_err (\<lambda>c. lookup (byte_decoder self) c (KeyStr [c])) (concat symbols) of
             Inl e \<Rightarrow> Inl e
           | Inr bs \<Rightarrow>
               if list_ex (\<lambda>b. 256 \<le> b) bs then Inl ValueError
               else utf8_decode (errors self) bs))"

text \<open>
  The states an \<open>Encoder\<close> object goes through: \<open>__init__\<close> returned it, or a call of
  \<open>bpe\<close> returned on it. \<open>encode\<close> changes the object only through its calls of \<open>bpe\<close>,
  also when it raises later, and \<open>decode\<close> does not change it.
\<close>

inductive reachable :: "Encoder \<Rightarrow> bool" where
  init: "Encoder_init enc bpe_merges errs cc = Inr self \<Longrightarrow> reachable self"
| step: "reachable self \<Longrightarrow> bpe self token = Inr (merged, self') \<Longrightarrow> reachable self'"

text \<open>
  \<open>HighSpeedTokenizer.__init__\<close> builds its tokenizer with the \<open>tokenizers\<close> and
  \<open>transformers\<close> libraries and reads the vocabulary with \<open>json.load\<close>; the outcomes of
  these two steps are parameters. The check of the vocabulary is the last statement.
\<close>

definition HighSpeedTokenizer_init ::
    "error + 'tok \<Rightarrow> error + (str, int) dict \<Rightarrow> error + ('tok \<times> (str, int) dict)" where
  "HighSpeedTokenizer_init built loaded =
     (case built of
        Inl e \<Rightarrow> Inl e
      | Inr tokenizer \<Rightarrow>
          (case loaded of
             Inl e \<Rightarrow> Inl e
           | Inr enc \<Rightarrow>
               if \<not> dict_mem endoftext enc then Inl ValueError else Inr (tokenizer, enc)))"

section \<open>Notions of the specification\<close>

subsection \<open>The merge algorithm in the words of the specification\<close>

text \<open>
  Starting from a sequence of symbols: stop when one symbol is left or no adjacent pair
  is in the rank table; otherwise take the adjacent pair of lowest rank (a pair that is
  not in the table counts as infinite), merge its occurrences in one pass and repeat.
\<close>

function greedy :: "(pair, nat) dict \<Rightarrow> symbol list \<Rightarrow> symbol list" where
  "greedy ranks word =
     (let adjacent = zip word (tl word) in
      if length word \<le> 1 \<or> (\<forall>p\<in>set adjacent. \<not> dict_mem p ranks) then word
      else
        (let best = arg_min_list (rank_key ranks) adjacent in
         greedy ranks (merge_pass (fst best) (snd best) word)))"
  by pat_completeness auto

termination
proof (relation "measure (\<lambda>(ranks, word). length word)")
  show "wf (measure (\<lambda>(ranks, word). length word))"
    by simp
next
  fix ranks :: "(pair, nat) dict" and word :: "symbol list" and adjacent best
  assume adj: "adjacent = zip word (tl word)"
    and go: "\<not> (length word \<le> 1 \<or> (\<forall>p\<in>set adjacent. \<not> dict_mem p ranks))"
    and best: "best = arg_min_list (rank_key ranks) adjacent"
  from go have "adjacent \<noteq> []" by auto
  then have "best \<in> set (zip word (tl word))"
    unfolding best using adj arg_min_list_in by blast
  then have "length (merge_pass (fst best) (snd best) word) < length word"
    using length_merge_pass_less [of "fst best" "snd best" word] by simp
  then show "((ranks, merge_pass (fst best) (snd best) word), (ranks, word))
      \<in> measure (\<lambda>(ranks, word). length word)"
    by simp
qed

declare greedy.simps [simp del]

text \<open>No two pairs have the same rank.\<close>

definition ranks_inj :: "(pair, nat) dict \<Rightarrow> bool" where
  "ranks_inj ranks =
     (\<forall>p q r. dict_get ranks p = Some r \<and> dict_get ranks q = Some r \<longrightarrow> p = q)"

subsection \<open>What encode returns, apart from the cache\<close>

text \<open>
  The value a call returns or the error it raises, without the state of the object; and
  \<open>bpe\<close>, a chunk and a part evaluated on the object with its cache cleared.
\<close>

definition outcome :: "error + ('a \<times> Encoder) \<Rightarrow> error + 'a" where
  "outcome r = map_sum id fst r"

definition bpe_value :: "Encoder \<Rightarrow> str \<Rightarrow> error + str" where
  "bpe_value self token = outcome (bpe (self\<lparr>cache := []\<rparr>) token)"

definition chunk_ids :: "Encoder \<Rightarrow> str \<Rightarrow> error + int list" where
  "chunk_ids self chunk = outcome (encode_chunks (self\<lparr>cache := []\<rparr>) [chunk] [])"

definition part_ids :: "Encoder \<Rightarrow> str \<Rightarrow> error + int list" where
  "part_ids self part =
     (case map_err (chunk_ids self) (findall (pat self) part) of
        Inl e \<Rightarrow> Inl e
      | Inr idss \<Rightarrow> Inr (concat idss))"

text \<open>The ids of the fragments with one separator id between two neighbours.\<close>

fun join_ids :: "int \<Rightarrow> int list list \<Rightarrow> int list" where
  "join_ids m [] = []"
| "join_ids m [x] = x"
| "join_ids m (x # y # rest) = x @ [m] @ join_ids m (y # rest)"

text \<open>Every cached entry is what \<open>bpe\<close> computes for its key.\<close>

definition cache_sound :: "Encoder \<Rightarrow> bool" where
  "cache_sound self =
     (\<forall>token cached. dict_get (cache self) token = Some cached \<longrightarrow>
        bpe_value self token = Inr cached)"

subsection \<open>Texts and vocabularies of the round trip\<close>

text \<open>A Unicode scalar value: a code point up to U+10FFFF that is not a surrogate. A
  text of scalar values is what the specification calls valid UTF-8 text.\<close>

definition scalar :: "codepoint \<Rightarrow> bool" where
  "scalar c = (c < 0xD800 \<or> (0xE000 \<le> c \<and> c < 0x110000))"

text \<open>
  The vocabulary covers the byte-level alphabet and the merge table: it has a symbol for
  each of the 256 characters of \<open>bytes_to_unicode\<close> and for the result of each merge
  rule. Its ids are unique: no two entries have the same id.
\<close>

definition covers :: "Encoder \<Rightarrow> bool" where
  "covers self =
     ((\<forall>c\<in>snd ` set bytes_to_unicode. dict_mem [c] (encoder self)) \<and>
      (\<forall>l r. dict_mem (l, r) (bpe_ranks self) \<longrightarrow> dict_mem (l @ r) (encoder self)))"

definition unique_ids :: "(str, int) dict \<Rightarrow> bool" where
  "unique_ids enc = inj_on snd (set enc)"

definition valid_text :: "str \<Rightarrow> bool" where
  "valid_text t = (\<forall>c\<in>set t. scalar c)"

text \<open>The first half of \<open>covers\<close> alone: the vocabulary has a symbol for each character of
  the byte-level alphabet.\<close>

definition covers_alphabet :: "Encoder \<Rightarrow> bool" where
  "covers_alphabet self = (\<forall>c\<in>snd ` set bytes_to_unicode. dict_mem [c] (encoder self))"

text \<open>The symbols \<open>syms\<close> have the ids \<open>ids\<close> in the vocabulary.\<close>

definition symbol_ids :: "(str, int) dict \<Rightarrow> str list \<Rightarrow> int list \<Rightarrow> bool" where
  "symbol_ids enc syms ids = list_all2 (\<lambda>s i. dict_get enc s = Some i) syms ids"

subsection \<open>The table of bytes_to_unicode in closed form\<close>

text \<open>
  The bytes outside the three printable ranges are 0 to 32, 127 to 160 and 173, in this
  order; the loop numbers them from 256 on.
\<close>

definition other_bytes :: "nat list" where
  "other_bytes = [0..<33] @ [127..<161] @ [173]"

definition byte_char :: "nat \<Rightarrow> codepoint" where
  "byte_char b =
     (if b < 33 then 256 + b
      else if b < 127 then b
      else if b < 161 then b + 162
      else if b = 173 then 323
      else b)"

section \<open>Example objects\<close>

text \<open>
  A vocabulary with one symbol for each byte, the merged symbol \<open>ab\<close> and the separator;
  one merge rule; ASCII letters, digits and white space as character classes. These
  classes agree with the Unicode classes on the texts of the examples, which hold no
  letter, number or white space outside ASCII.
\<close>

definition example_class :: charclass where
  "example_class =
     \<lparr>isL = (\<lambda>c. (65 \<le> c \<and> c \<le> 90) \<or> (97 \<le> c \<and> c \<le> 122)),
      isN = (\<lambda>c. 48 \<le> c \<and> c \<le> 57),
      isS = (\<lambda>c. (9 \<le> c \<and> c \<le> 13) \<or> c = 32)\<rparr>"

definition example_vocab :: "(str, int) dict" where
  "example_vocab =
     map (\<lambda>(b, c). ([c], int b)) bytes_to_unicode @ [(str_of ''ab'', 256), (endoftext, 257)]"

definition example_merges :: "pair list" where
  "example_merges = [(str_of ''a'', str_of ''b'')]"

definition example_encoder :: Encoder where
  "example_encoder =
     \<lparr>encoder = example_vocab,
      decoder = dict_invert example_vocab,
      errors = Replace,
      byte_encoder = bytes_to_unicode,
      byte_decoder = dict_invert bytes_to_unicode,
      bpe_ranks = dict_of (zip example_merges [0..<length example_merges]),
      cache = [],
      pat = example_class\<rparr>"

text \<open>The vocabulary of the concrete scenario of the specification, with \<open>a\<close>, the
  symbol of \<open>b\<close> after a space and the separator; and a vocabulary without the separator.\<close>

definition tiny_vocab :: "(str, int) dict" where
  "tiny_vocab = [(str_of ''a'', 0), (288 # str_of ''b'', 1), (endoftext, 2)]"

definition tiny_vocab_without :: "(str, int) dict" where
  "tiny_vocab_without = [(str_of ''a'', 0), (288 # str_of ''b'', 1)]"

definition tiny_encoder :: Encoder where
  "tiny_encoder =
     \<lparr>encoder = tiny_vocab,
      decoder = dict_invert tiny_vocab,
      errors = Replace,
      byte_encoder = bytes_to_unicode,
      byte_decoder = dict_invert bytes_to_unicode,
      bpe_ranks = dict_of (zip [] [0..<length ([] :: pair list)]),
      cache = [],
      pat = example_class\<rparr>"

text \<open>The example object after \<open>bpe\<close> was called on \<open>ab\<close>.\<close>

definition example_encoder_warm :: Encoder where
  "example_encoder_warm = example_encoder\<lparr>cache := [(str_of ''ab'', str_of ''ab'')]\<rparr>"

text \<open>A text with ASCII letters, a space, the symbols U+00A9, U+20AC and U+1F600 (two,
  three and four bytes in UTF-8), the separator and a newline.\<close>

definition example_text :: str where
  "example_text = [97, 98, 32, 169, 8364, 128512] @ endoftext @ [10]"

text \<open>
  Two objects that \<open>__init__\<close> accepts. In the first, the symbol \<open>zz\<close> has the id of
  \<open>a\<close>. In the second, the vocabulary has the alphabet and the separator only, while the
  merge table has the rule for \<open>a\<close> and \<open>b\<close>.
\<close>

definition dup_vocab :: "(str, int) dict" where
  "dup_vocab = example_vocab @ [(str_of ''zz'', 97)]"

definition dup_encoder :: Encoder where
  "dup_encoder =
     \<lparr>encoder = dup_vocab,
      decoder = dict_invert dup_vocab,
      errors = Replace,
      byte_encoder = bytes_to_unicode,
      byte_decoder = dict_invert bytes_to_unicode,
      bpe_ranks = dict_of (zip example_merges [0..<length example_merges]),
      cache = [],
      pat = example_class\<rparr>"

definition bare_vocab :: "(str, int) dict" where
  "bare_vocab = map (\<lambda>(b, c). ([c], int b)) bytes_to_unicode @ [(endoftext, 256)]"

definition bare_encoder :: Encoder where
  "bare_encoder =
     \<lparr>encoder = bare_vocab,
      decoder = dict_invert bare_vocab,
      errors = Replace,
      byte_encoder = bytes_to_unicode,
      byte_decoder = dict_invert bytes_to_unicode,
      bpe_ranks = dict_of (zip example_merges [0..<length example_merges]),
      cache = [],
      pat = example_class\<rparr>"

section \<open>Dictionaries: lookup after construction\<close>

lemma dict_set_keys: "fst ` set (dict_set d k v) = insert k (fst ` set d)"
  by (simp add: dict_set_def AList.dom_update)

lemma dict_get_set: "dict_get (dict_set d k v) k' = (if k' = k then Some v else dict_get d k')"
  by (simp add: dict_get_def dict_set_def AList.update_conv')

lemma foldl_dict_set_get:
  "dict_get (foldl (\<lambda>d (k, v). dict_set d k v) d0 kvs) k =
     (case map_of (rev kvs) k of None \<Rightarrow> dict_get d0 k | Some v \<Rightarrow> Some v)"
proof (induction kvs arbitrary: d0)
  case Nil
  show ?case by simp
next
  case (Cons p kvs)
  obtain a b where p: "p = (a, b)" by (cases p)
  show ?case
    by (simp add: Cons.IH p dict_get_set map_add_def split: option.splits)
qed

lemma dict_of_get: "dict_get (dict_of kvs) k = map_of (rev kvs) k"
  unfolding dict_of_def foldl_dict_set_get by (simp add: dict_get_def split: option.splits)

lemma foldl_dict_set_keys:
  "fst ` set (foldl (\<lambda>d (k, v). dict_set d k v) d0 kvs) = fst ` set d0 \<union> fst ` set kvs"
proof (induction kvs arbitrary: d0)
  case Nil
  show ?case by simp
next
  case (Cons p kvs)
  obtain a b where p: "p = (a, b)" by (cases p)
  show ?case by (simp add: Cons.IH p dict_set_keys)
qed

lemma dict_of_keys: "fst ` set (dict_of kvs) = fst ` set kvs"
  by (simp add: dict_of_def foldl_dict_set_keys)

lemma dict_of_distinct_keys: "distinct (map fst (dict_of kvs))"
proof -
  have "distinct (map fst d0) \<Longrightarrow> distinct (map fst (foldl (\<lambda>d (k, v). dict_set d k v) d0 kvs))" for d0 :: "('a \<times> 'b) list"
  proof (induction kvs arbitrary: d0)
    case Nil
    then show ?case by simp
  next
    case (Cons p kvs)
    obtain a b where p: "p = (a, b)" by (cases p)
    have "distinct (map fst (dict_set d0 a b))"
      using Cons.prems by (simp add: dict_set_def AList.distinct_update)
    from Cons.IH [OF this] show ?case by (simp add: p)
  qed
  then show ?thesis by (simp add: dict_of_def)
qed

lemma dict_invert_get_Some:
  assumes "dict_get d k = Some v" and "inj_on snd (set d)" 
  shows "dict_get (dict_invert d) v = Some k"
proof -
  have kv: "(k, v) \<in> set d"
    using assms(1) by (simp add: dict_get_def map_of_SomeD)
  have "\<exists>k'. map_of (rev (map (\<lambda>(k, v). (v, k)) d)) v = Some k'"
  proof (cases "map_of (rev (map (\<lambda>(k, v). (v, k)) d)) v")
    case None
    then have "v \<notin> fst ` set (rev (map (\<lambda>(k, v). (v, k)) d))"
      by (simp add: map_of_eq_None_iff)
    moreover have "v \<in> fst ` set (rev (map (\<lambda>(k, v). (v, k)) d))"
      using kv by force
    ultimately show ?thesis by simp
  next
    case (Some k')
    then show ?thesis by simp
  qed
  then obtain k' where k': "map_of (rev (map (\<lambda>(k, v). (v, k)) d)) v = Some k'" by blast
  then have "(v, k') \<in> set (rev (map (\<lambda>(k, v). (v, k)) d))"
    by (rule map_of_SomeD)
  then have "(k', v) \<in> set d" by auto
  with kv have "k' = k"
    using inj_onD [OF assms(2), of "(k', v)" "(k, v)"] by simp
  with k' show ?thesis by (simp add: dict_invert_def dict_of_get)
qed

lemma dict_invert_keys: "fst ` set (dict_invert d) = snd ` set d"
  by (force simp: dict_invert_def dict_of_keys)

lemma dict_set_fresh: "k \<notin> fst ` set d \<Longrightarrow> dict_set d k v = d @ [(k, v)]"
  by (induction d) (auto simp: dict_set_def)

lemma dict_of_distinct: "distinct (map fst kvs) \<Longrightarrow> dict_of kvs = kvs"
proof -
  have "distinct (map fst (d0 @ kvs)) \<Longrightarrow> foldl (\<lambda>d (k, v). dict_set d k v) d0 kvs = d0 @ kvs"
    for d0 :: "('a \<times> 'b) list"
  proof (induction kvs arbitrary: d0)
    case Nil
    show ?case by simp
  next
    case (Cons p kvs)
    obtain a b where p: "p = (a, b)" by (cases p)
    have fresh: "a \<notin> fst ` set d0"
      using Cons.prems by (auto simp: p)
    have "distinct (map fst ((d0 @ [(a, b)]) @ kvs))"
      using Cons.prems by (simp add: p)
    from Cons.IH [OF this] show ?case
      by (simp add: p dict_set_fresh [OF fresh])
  qed
  from this [of "[]"] show "distinct (map fst kvs) \<Longrightarrow> dict_of kvs = kvs"
    by (simp add: dict_of_def)
qed

section \<open>The table of bytes_to_unicode\<close>

lemma b2u_loop_distinct:
  "distinct rest \<Longrightarrow>
   b2u_loop rest bs cs n =
     (bs @ filter (\<lambda>b. b \<notin> set bs) rest,
      cs @ map (\<lambda>i. 2 ^ 8 + n + i) [0..<length (filter (\<lambda>b. b \<notin> set bs) rest)])"
proof (induction rest arbitrary: bs cs n)
  case Nil
  show ?case by simp
next
  case (Cons b rest)
  have d: "distinct rest" and nb: "b \<notin> set rest"
    using Cons.prems by auto
  show ?case
  proof (cases "b \<in> set bs")
    case True
    then show ?thesis by (simp add: Cons.IH [OF d])
  next
    case False
    have step: "b2u_loop (b # rest) bs cs n =
        ((bs @ [b]) @ filter (\<lambda>x. x \<notin> set (bs @ [b])) rest,
         (cs @ [2 ^ 8 + n]) @ map (\<lambda>i. 2 ^ 8 + (n + 1) + i)
            [0..<length (filter (\<lambda>x. x \<notin> set (bs @ [b])) rest)])"
      using False Cons.IH [OF d, of "bs @ [b]" "cs @ [2 ^ 8 + n]" "n + 1"] by simp
    have f: "filter (\<lambda>x. x \<notin> set (bs @ [b])) rest = filter (\<lambda>x. x \<notin> set bs) rest"
      using nb by (intro filter_cong) auto
    have m: "map (\<lambda>i. 2 ^ 8 + n + i) [0..<Suc k] = (2 ^ 8 + n) # map (\<lambda>i. 2 ^ 8 + (n + 1) + i) [0..<k]"
      for k :: nat
      by (induction k) simp_all
    have rhs: "filter (\<lambda>x. x \<notin> set bs) (b # rest) = b # filter (\<lambda>x. x \<notin> set bs) rest"
      using False by simp
    show ?thesis
      unfolding step f rhs length_Cons m by simp
  qed
qed

lemma set_printable_bytes: "set printable_bytes = {33..<127} \<union> {161..<173} \<union> {174..<256}"
  by (auto simp: printable_bytes_def)

lemma set_other_bytes: "set other_bytes = {0..<33} \<union> {127..<161} \<union> {173}"
  by (auto simp: other_bytes_def)

lemma upt_split3: "a \<le> b \<Longrightarrow> b \<le> c \<Longrightarrow> [a..<c] = [a..<b] @ [b..<c]"
  by (metis le_Suc_ex upt_add_eq_append)

lemma filter_other_bytes: "filter (\<lambda>b. b \<notin> set printable_bytes) [0..<2 ^ 8] = other_bytes"
proof -
  have split: "[0..<2 ^ 8] = [0..<33] @ [33..<127] @ [127..<161] @ [161..<173] @ [173] @ [174..<256]"
  proof -
    have "[0..<256] = [0..<33] @ [33..<256]" by (rule upt_split3) simp_all
    also have "[33..<256] = [33..<127] @ [127..<256]" by (rule upt_split3) simp_all
    also have "[127..<256] = [127..<161] @ [161..<256]" by (rule upt_split3) simp_all
    also have "[161..<256] = [161..<173] @ [173..<256]" by (rule upt_split3) simp_all
    also have "[173..<256] = [173] @ [174..<256]"
      by (simp add: upt_conv_Cons)
    finally show ?thesis by simp
  qed
  have mem: "b \<in> set printable_bytes \<longleftrightarrow> (33 \<le> b \<and> b < 127) \<or> (161 \<le> b \<and> b < 173) \<or> (174 \<le> b \<and> b < 256)"
    for b
    by (auto simp: set_printable_bytes)
  have "filter (\<lambda>b. b \<notin> set printable_bytes) [0..<33] = [0..<33]"
    by (rule filter_True) (auto simp: mem)
  moreover have "filter (\<lambda>b. b \<notin> set printable_bytes) [33..<127] = []"
    by (rule filter_False) (auto simp: mem)
  moreover have "filter (\<lambda>b. b \<notin> set printable_bytes) [127..<161] = [127..<161]"
    by (rule filter_True) (auto simp: mem)
  moreover have "filter (\<lambda>b. b \<notin> set printable_bytes) [161..<173] = []"
    by (rule filter_False) (auto simp: mem)
  moreover have "filter (\<lambda>b. b \<notin> set printable_bytes) [174..<256] = []"
    by (rule filter_False) (auto simp: mem)
  moreover have "filter (\<lambda>b. b \<notin> set printable_bytes) [173] = [173]"
    by (simp add: mem)
  ultimately show ?thesis
    unfolding split other_bytes_def filter_append by simp
qed

lemma map_shift_upt: "map (\<lambda>i. i + k) [a..<b] = [a + k..<b + k]"
  by (induction b) (auto simp: Suc_diff_le)

lemma map_byte_char_printable: "map byte_char printable_bytes = printable_bytes"
  by (rule map_idI) (auto simp: set_printable_bytes byte_char_def)

lemma map_byte_char_other: "map byte_char other_bytes = map (\<lambda>i. 2 ^ 8 + 0 + i) [0..<length other_bytes]"
proof -
  have a: "map byte_char [0..<33] = [256..<289]"
  proof -
    have "map byte_char [0..<33] = map (\<lambda>i. i + 256) [0..<33]"
      by (rule map_cong) (auto simp: byte_char_def)
    then show ?thesis by (simp only: map_shift_upt) simp
  qed
  have b: "map byte_char [127..<161] = [289..<323]"
  proof -
    have "map byte_char [127..<161] = map (\<lambda>i. i + 162) [127..<161]"
      by (rule map_cong) (auto simp: byte_char_def)
    then show ?thesis by (simp only: map_shift_upt) simp
  qed
  have c: "map (\<lambda>i. 2 ^ 8 + 0 + i) [0..<68] = [256..<324]"
  proof -
    have "map (\<lambda>i. 2 ^ 8 + 0 + i) [0..<68] = map (\<lambda>i. i + 256) [0..<68]"
      by (rule map_cong) auto
    then show ?thesis by (simp only: map_shift_upt) simp
  qed
  have d: "[256..<324] = [256..<289] @ [289..<323] @ [323]"
  proof -
    have "[256..<324] = [256..<289] @ [289..<324]" by (rule upt_split3) simp_all
    also have "[289..<324] = [289..<323] @ [323..<324]" by (rule upt_split3) simp_all
    also have "[323..<324] = [323]" by (simp add: upt_conv_Cons)
    finally show ?thesis .
  qed
  have len: "length other_bytes = 68"
    by (simp add: other_bytes_def)
  have "map byte_char other_bytes = [256..<289] @ [289..<323] @ [323]"
    by (simp only: other_bytes_def map_append a b) (simp add: byte_char_def)
  then show ?thesis
    by (simp only: len c d)
qed

lemma bytes_to_unicode_closed:
  "bytes_to_unicode = map (\<lambda>b. (b, byte_char b)) (printable_bytes @ other_bytes)"
proof -
  have loop: "b2u_loop [0..<2 ^ 8] printable_bytes printable_bytes 0 =
      (printable_bytes @ other_bytes, map byte_char (printable_bytes @ other_bytes))"
    by (simp only: b2u_loop_distinct [OF distinct_upt] filter_other_bytes map_append
        map_byte_char_printable map_byte_char_other)
  have z: "zip xs (map byte_char xs) = map (\<lambda>b. (b, byte_char b)) xs" for xs
    by (induction xs) auto
  have dist: "distinct (printable_bytes @ other_bytes)"
    by (simp add: printable_bytes_def other_bytes_def) auto
  have "distinct (map fst (map (\<lambda>b. (b, byte_char b)) (printable_bytes @ other_bytes)))"
    using dist by (simp add: comp_def)
  then show ?thesis
    by (simp only: bytes_to_unicode_def loop prod.case z dict_of_distinct)
qed

lemma set_all_bytes: "set (printable_bytes @ other_bytes) = {0..<256}"
  by (auto simp: set_printable_bytes set_other_bytes)

lemma byte_encoder_get:
  "dict_get bytes_to_unicode b = (if b < 256 then Some (byte_char b) else None)"
proof -
  have "map_of (map (\<lambda>b. (b, byte_char b)) xs) b = (if b \<in> set xs then Some (byte_char b) else None)"
    for xs
    by (induction xs) auto
  then show ?thesis
    by (simp only: dict_get_def bytes_to_unicode_closed set_all_bytes) simp
qed

lemma byte_char_inj: "a < 256 \<Longrightarrow> b < 256 \<Longrightarrow> byte_char a = byte_char b \<Longrightarrow> a = b"
  by (auto simp: byte_char_def split: if_splits)

lemma byte_char_not_space: "b < 256 \<Longrightarrow> byte_char b \<noteq> 32"
  by (auto simp: byte_char_def split: if_splits)

lemma byte_char_ascii: "33 \<le> b \<Longrightarrow> b < 127 \<Longrightarrow> byte_char b = b"
  by (simp add: byte_char_def)

lemma bytes_to_unicode_inj: "inj_on snd (set bytes_to_unicode)"
proof -
  have "set bytes_to_unicode = (\<lambda>b. (b, byte_char b)) ` {0..<256}"
    by (simp only: bytes_to_unicode_closed set_map set_all_bytes)
  then show ?thesis
    by (auto simp: inj_on_def dest: byte_char_inj)
qed

lemma byte_decoder_get:
  "b < 256 \<Longrightarrow> dict_get (dict_invert bytes_to_unicode) (byte_char b) = Some b"
  by (rule dict_invert_get_Some [OF _ bytes_to_unicode_inj]) (simp add: byte_encoder_get)

section \<open>One merge pass\<close>

lemma concat_merge_pass: "concat (merge_pass l r xs) = concat xs"
  by (induction l r xs rule: merge_pass.induct) auto

lemma merge_pass_nonempty: "xs \<noteq> [] \<Longrightarrow> merge_pass l r xs \<noteq> []"
  by (induction l r xs rule: merge_pass.induct) auto

section \<open>Invariants of the object\<close>

lemma bpe_frame: "bpe self token = Inr (merged, self') \<Longrightarrow> self' = self\<lparr>cache := cache self'\<rparr>"
  by (auto simp: bpe_def Let_def split: option.splits sum.splits if_splits)

lemma Encoder_init_fields:
  assumes "Encoder_init enc bpe_merges errs cc = Inr self"
  shows "encoder self = enc" and "decoder self = dict_invert enc" and "errors self = errs"
    and "byte_encoder self = bytes_to_unicode"
    and "byte_decoder self = dict_invert bytes_to_unicode"
    and "bpe_ranks self = dict_of (zip bpe_merges [0..<length bpe_merges])"
    and "cache self = []" and "pat self = cc" and "dict_mem endoftext enc"
  using assms by (auto simp: Encoder_init_def Let_def split: if_splits)

lemma reachable_byte_maps:
  "reachable self \<Longrightarrow>
     byte_encoder self = bytes_to_unicode \<and> byte_decoder self = dict_invert bytes_to_unicode"
proof (induction rule: reachable.induct)
  case (init enc bpe_merges errs cc self)
  then show ?case by (simp add: Encoder_init_fields)
next
  case (step self token merged self')
  from bpe_frame [OF step.hyps(2)] obtain c where "self' = self\<lparr>cache := c\<rparr>" ..
  with step.IH show ?case by simp
qed

lemma distinct_all_bytes: "distinct (printable_bytes @ other_bytes)"
  by (simp add: printable_bytes_def other_bytes_def) auto

lemma bytes_to_unicode_keys: "map fst bytes_to_unicode = printable_bytes @ other_bytes"
  by (simp add: bytes_to_unicode_closed comp_def)

lemma bytes_to_unicode_values: "map snd bytes_to_unicode = map byte_char (printable_bytes @ other_bytes)"
  by (simp add: bytes_to_unicode_closed comp_def)

lemma bytes_to_unicode_distinct_values: "distinct (map snd bytes_to_unicode)"
proof -
  have "inj_on byte_char (set (printable_bytes @ other_bytes))"
    unfolding set_all_bytes by (auto simp: inj_on_def dest: byte_char_inj)
  then show ?thesis
    unfolding bytes_to_unicode_values using distinct_all_bytes by (simp only: distinct_map)
qed

lemma length_bytes_to_unicode: "length bytes_to_unicode = 256"
  by (simp add: bytes_to_unicode_closed printable_bytes_def other_bytes_def)

lemma reachable_encoder:
  "reachable self \<Longrightarrow>
     decoder self = dict_invert (encoder self) \<and> dict_mem endoftext (encoder self)"
proof (induction rule: reachable.induct)
  case (init enc bpe_merges errs cc self)
  then show ?case by (simp add: Encoder_init_fields)
next
  case (step self token merged self')
  from bpe_frame [OF step.hyps(2)] obtain c where "self' = self\<lparr>cache := c\<rparr>" ..
  with step.IH show ?case by simp
qed

lemma dict_invert_get_None: "dict_get (dict_invert d) v = None \<longleftrightarrow> v \<notin> snd ` set d"
  using dict_invert_keys [of d] by (simp add: dict_get_def map_of_eq_None_iff)

lemma map_err_Inl:
  assumes "x \<in> set xs" and "isl (f x)"
  shows "\<exists>e. map_err f xs = Inl e \<and> f (hd (filter (\<lambda>x. isl (f x)) xs)) = Inl e"
  using assms
proof (induction xs)
  case Nil
  then show ?case by simp
next
  case (Cons y ys)
  show ?case
  proof (cases "f y")
    case (Inl e)
    then show ?thesis by simp
  next
    case (Inr v)
    with Cons.prems have "x \<in> set ys" by auto
    from Cons.IH [OF this Cons.prems(2)] show ?thesis
      using Inr by auto
  qed
qed

lemma map_err_Inr_iff: "map_err f xs = Inr ys \<longleftrightarrow> list_all2 (\<lambda>x y. f x = Inr y) xs ys"
proof (induction xs arbitrary: ys)
  case Nil
  show ?case by auto
next
  case (Cons x xs)
  have ih: "list_all2 (\<lambda>x y. f x = Inr y) xs zs \<longleftrightarrow> map_err f xs = Inr zs" for zs
    using Cons.IH by simp
  show ?case
    by (auto simp: ih list_all2_Cons1 split: sum.splits)
qed

lemma evict_take: "evict c = take 1000 c"
proof (induction c rule: evict.induct)
  case (1 c)
  show ?case
  proof (cases "1000 < length c")
    case True
    then have "take 1000 (butlast c) = take 1000 c"
      by (simp add: butlast_conv_take)
    with "1.IH" [OF True] True show ?thesis
      by (simp add: evict.simps [of c])
  next
    case False
    then show ?thesis by (simp add: evict.simps [of c])
  qed
qed



lemma encode_chunks_reachable:
  "reachable self \<Longrightarrow> encode_chunks self chunks acc = Inr (ids, self') \<Longrightarrow> reachable self'"
proof (induction chunks arbitrary: self acc)
  case Nil
  then show ?case by simp
next
  case (Cons token rest)
  from Cons.prems(2) obtain bs token' merged self1 new_ids where
    b: "bpe self token' = Inr (merged, self1)"
    and r: "encode_chunks self1 rest (acc @ new_ids) = Inr (ids, self')"
    by (auto split: sum.splits prod.splits)
  have "reachable self1"
    using Cons.prems(1) b by (rule reachable.step)
  then show ?case using r by (rule Cons.IH)
qed



section \<open>The pattern leaves no character out\<close>

lemma re_lit_bounds: "re_lit l s = Some n \<Longrightarrow> l \<noteq> [] \<Longrightarrow> 0 < n \<and> n \<le> length s"
  by (auto simp: re_lit_def prefix_length_le split: if_splits)

lemma re_plus_bounds: "re_plus C s = Some n \<Longrightarrow> 0 < n \<and> n \<le> length s"
  using length_takeWhile_le [of C s]
  by (auto simp: re_plus_def Let_def split: if_splits)

lemma re_plus_head: "C c \<Longrightarrow> re_plus C (c # rest) \<noteq> None"
  by (simp add: re_plus_def Let_def)

lemma re_opt_space_plus_bounds: "re_opt_space_plus C s = Some n \<Longrightarrow> 0 < n \<and> n \<le> length s"
proof (cases s)
  case Nil
  assume "re_opt_space_plus C s = Some n"
  with Nil show ?thesis by (simp add: re_opt_space_plus_def)
next
  case (Cons c rest)
  assume a: "re_opt_space_plus C s = Some n"
  show ?thesis
  proof (cases "c = space \<and> re_plus C rest \<noteq> None")
    case True
    then obtain k where k: "re_plus C rest = Some k" by auto
    with a Cons True have "n = Suc k"
      by (simp add: re_opt_space_plus_def)
    with re_plus_bounds [OF k] Cons show ?thesis by simp
  next
    case False
    with a Cons have "re_plus C s = Some n"
      by (auto simp: re_opt_space_plus_def split: if_splits option.splits)
    then show ?thesis by (rule re_plus_bounds)
  qed
qed

lemma re_opt_space_plus_head: "C c \<Longrightarrow> re_opt_space_plus C (c # rest) \<noteq> None"
  using re_plus_head [of C c rest]
  by (auto simp: re_opt_space_plus_def split: option.splits)

lemma re_space_lookahead_bounds:
  "re_space_lookahead S s = Some n \<Longrightarrow> 0 < n \<and> n \<le> length s"
  using length_takeWhile_le [of S s]
  by (auto simp: re_space_lookahead_def Let_def split: if_splits)

lemma re_alt_Some: "re_alt ms = Some n \<Longrightarrow> Some n \<in> set ms"
  by (induction ms rule: re_alt.induct) auto

lemma re_alt_None: "re_alt ms = None \<Longrightarrow> m \<in> set ms \<Longrightarrow> m = None"
  by (induction ms rule: re_alt.induct) auto

lemma pat_match_bounds:
  assumes "pat_match cc s = Some n"
  shows "0 < n \<and> n \<le> length s"
proof -
  from re_alt_Some [OF assms [unfolded pat_match_def]]
  consider l where "re_lit (apostrophe # l) s = Some n"
    | C where "re_opt_space_plus C s = Some n"
    | "re_space_lookahead (isS cc) s = Some n"
    | "re_plus (isS cc) s = Some n"
    by auto
  then show ?thesis
  proof cases
    case 1
    then show ?thesis using re_lit_bounds [of "apostrophe # l" s n] by simp
  next
    case 2
    then show ?thesis by (rule re_opt_space_plus_bounds)
  next
    case 3
    then show ?thesis by (rule re_space_lookahead_bounds)
  next
    case 4
    then show ?thesis by (rule re_plus_bounds)
  qed
qed

text \<open>Every character is white space, a letter, a number or none of the three, so one of
  the last five alternatives matches at every position.\<close>

lemma pat_match_total: "pat_match cc (c # rest) \<noteq> None"
proof
  assume none: "pat_match cc (c # rest) = None"
  have l: "re_opt_space_plus (isL cc) (c # rest) = None"
    and n: "re_opt_space_plus (isN cc) (c # rest) = None"
    and other: "re_opt_space_plus (\<lambda>c. \<not> isS cc c \<and> \<not> isL cc c \<and> \<not> isN cc c) (c # rest) = None"
    and s: "re_plus (isS cc) (c # rest) = None"
    using none [unfolded pat_match_def] by (auto intro: re_alt_None)
  from l have "\<not> isL cc c" using re_opt_space_plus_head [of "isL cc" c rest] by blast
  moreover from n have "\<not> isN cc c" using re_opt_space_plus_head [of "isN cc" c rest] by blast
  moreover from s have "\<not> isS cc c" using re_plus_head [of "isS cc" c rest] by blast
  ultimately show False
    using other re_opt_space_plus_head [of "\<lambda>c. \<not> isS cc c \<and> \<not> isL cc c \<and> \<not> isN cc c" c rest]
    by blast
qed

lemma findall_chunks: "concat (findall cc s) = s \<and> [] \<notin> set (findall cc s)"
proof (induction cc s rule: findall.induct)
  case (1 cc)
  show ?case by simp
next
  case (2 cc c cs)
  from pat_match_total [of cc c cs] obtain n where n: "pat_match cc (c # cs) = Some n"
    by auto
  from pat_match_bounds [OF n] have pos: "0 < n" by simp
  then have "drop (n - 1) cs = drop n (c # cs)"
    by (cases n) simp_all
  moreover have "take n (c # cs) \<noteq> []"
    using pos by (cases n) simp_all
  ultimately show ?case
    using "2.IH"(2) [OF n] n by simp
qed

section \<open>bpe on a non-empty token\<close>

lemma pairs_loop_nonempty: "pairs \<noteq> [] \<or> rest \<noteq> [] \<Longrightarrow> pairs_loop prev_char rest pairs \<noteq> []"
proof
  assume a: "pairs \<noteq> [] \<or> rest \<noteq> []" and "pairs_loop prev_char rest pairs = []"
  then have "set pairs \<union> set (zip (prev_char # rest) rest) = {}"
    using set_pairs_loop [of prev_char rest pairs] by simp
  then have "pairs = []" and "zip (prev_char # rest) rest = []"
    by simp_all
  with a show False by (cases rest) simp_all
qed

lemma get_pairs_long:
  "2 \<le> length word \<Longrightarrow> \<exists>pairs. get_pairs word = Inr pairs \<and> pairs \<noteq> []"
proof -
  assume "2 \<le> length word"
  then obtain a b rest where "word = a # b # rest"
    by (cases word; cases "tl word") auto
  then show ?thesis
    using pairs_loop_nonempty [of "[]" "b # rest" a] by (simp add: get_pairs_def)
qed

lemma bpe_loop_returns:
  "word \<noteq> [] \<Longrightarrow> pairs \<noteq> [] \<Longrightarrow> \<exists>word'. bpe_loop ranks word pairs = Inr word' \<and> word' \<noteq> []"
proof (induction ranks word pairs rule: bpe_loop.induct)
  case (1 ranks word pairs)
  from "1.prems"(2) obtain bigram where m: "py_min (rank_key ranks) pairs = Inr bigram"
    by (cases pairs) (auto simp: py_min_def)
  let ?new = "merge_loop word (fst bigram) (snd bigram) 0 []"
  have new: "?new \<noteq> []"
    using "1.prems"(1) by (simp add: merge_loop_pass merge_pass_nonempty)
  show ?case
  proof (cases "dict_mem bigram ranks")
    case False
    then show ?thesis
      using m "1.prems"(1) by (simp add: bpe_loop.simps [of ranks word pairs])
  next
    case mem: True
    show ?thesis
    proof (cases "length ?new = 1")
      case True
      then show ?thesis
        using m mem new by (simp add: bpe_loop.simps [of ranks word pairs])
    next
      case False
      with new have "2 \<le> length ?new"
        by (cases ?new) (auto simp: Suc_le_eq)
      from get_pairs_long [OF this] obtain pairs' where
        p: "get_pairs ?new = Inr pairs'" "pairs' \<noteq> []"
        by blast
      have "\<not> \<not> dict_mem bigram ranks" using mem by simp
      from "1.IH" [OF m this refl False p(1) new p(2)]
      show ?thesis
        using m mem False p(1) by (simp add: bpe_loop.simps [of ranks word pairs])
    qed
  qed
qed

lemma bpe_returns: "token \<noteq> [] \<Longrightarrow> \<exists>merged self'. bpe self token = Inr (merged, self')"
proof -
  assume ne: "token \<noteq> []"
  then obtain pairs where p: "get_pairs (map (\<lambda>c. [c]) token) = Inr pairs"
    by (cases token) (auto simp: get_pairs_def)
  show ?thesis
  proof (cases "dict_get (cache self) token")
    case (Some cached)
    then show ?thesis by (simp add: bpe_def)
  next
    case None
    show ?thesis
    proof (cases "pairs = []")
      case True
      then show ?thesis using None p by (simp add: bpe_def)
    next
      case False
      from bpe_loop_returns [of "map (\<lambda>c. [c]) token" pairs "bpe_ranks self"] ne False
      obtain word' where "bpe_loop (bpe_ranks self) (map (\<lambda>c. [c]) token) pairs = Inr word'"
        by auto
      then show ?thesis using None p False by (simp add: bpe_def Let_def)
    qed
  qed
qed

lemma map_err_length: "map_err f xs = Inr ys \<Longrightarrow> length ys = length xs"
  by (simp add: map_err_Inr_iff list_all2_lengthD)

lemma map_err_error: "map_err f xs = Inl e \<Longrightarrow> \<exists>x\<in>set xs. f x = Inl e"
  by (induction xs) (auto split: sum.splits)

lemma utf8_char_nonempty: "utf8_char c = Inr bs \<Longrightarrow> bs \<noteq> []"
  by (auto simp: utf8_char_def split: if_splits)

lemma utf8_encode_nonempty: "utf8_encode s = Inr bs \<Longrightarrow> s \<noteq> [] \<Longrightarrow> bs \<noteq> []"
  by (cases s) (auto split: sum.splits dest: utf8_char_nonempty)

lemma utf8_encode_error: "utf8_encode s = Inl e \<Longrightarrow> e = UnicodeEncodeError"
  by (induction s) (auto simp: utf8_char_def split: sum.splits if_splits)

lemma lookup_error: "lookup d k shown = Inl e \<Longrightarrow> e = KeyError shown"
  by (auto simp: lookup_def split: option.splits)

lemma surrogate_token_nonempty:
  assumes "chunk \<noteq> []" and "utf8_encode chunk = Inr bs"
    and "map_err (\<lambda>b. lookup d b (KeyInt (int b))) bs = Inr token"
  shows "token \<noteq> []"
  using utf8_encode_nonempty [OF assms(2,1)] map_err_length [OF assms(3)] by auto

lemma encode_chunks_no_IndexError:
  "[] \<notin> set chunks \<Longrightarrow> encode_chunks self chunks acc \<noteq> Inl IndexError"
proof (induction chunks arbitrary: self acc)
  case Nil
  show ?case by simp
next
  case (Cons chunk rest)
  then have ne: "chunk \<noteq> []" and rest: "[] \<notin> set rest" by auto
  show ?case
  proof (cases "utf8_encode chunk")
    case (Inl e)
    then show ?thesis using utf8_encode_error [OF Inl] by simp
  next
    case bs: (Inr bs)
    show ?thesis
    proof (cases "map_err (\<lambda>b. lookup (byte_encoder self) b (KeyInt (int b))) bs")
      case (Inl e)
      from map_err_error [OF this] have "e \<noteq> IndexError"
        by (auto dest: lookup_error)
      then show ?thesis using bs Inl by simp
    next
      case tok: (Inr token)
      from surrogate_token_nonempty [OF ne bs tok] have "token \<noteq> []" .
      from bpe_returns [OF this] obtain merged self' where b: "bpe self token = Inr (merged, self')"
        by blast
      show ?thesis
      proof (cases "map_err (\<lambda>t. lookup (encoder self') t (KeyStr t)) (str_split [space] merged)")
        case (Inl e)
        from map_err_error [OF this] have "e \<noteq> IndexError"
          by (auto dest: lookup_error)
        then show ?thesis using bs tok b Inl by simp
      next
        case (Inr ids)
        then show ?thesis using bs tok b Cons.IH [OF rest] by simp
      qed
    qed
  qed
qed

lemma encode_parts_no_IndexError: "encode_parts self parts mid acc \<noteq> Inl IndexError"
proof (induction parts arbitrary: self mid acc)
  case Nil
  show ?case by simp
next
  case (Cons part parts)
  have chunks: "encode_chunks self (findall (pat self) part) acc' \<noteq> Inl IndexError" for acc'
    by (rule encode_chunks_no_IndexError) (simp add: findall_chunks)
  show ?case
  proof (cases mid)
    case (Some m)
    then show ?thesis
      using chunks [of "acc @ [m]"] Cons.IH
      by (auto split: sum.splits)
  next
    case None
    then show ?thesis
      using chunks [of acc] Cons.IH
      by (auto split: sum.splits dest: lookup_error)
  qed
qed

section \<open>The cache holds what bpe computes\<close>

lemma outcome_simps [simp]:
  "outcome (Inl e) = Inl e" "outcome (Inr (x, s)) = Inr x"
  by (simp_all add: outcome_def)

lemma outcome_Inr: "outcome r = Inr x \<longleftrightarrow> (\<exists>s. r = Inr (x, s))"
  by (cases r) (auto simp: outcome_def)

lemma outcome_Inl: "outcome r = Inl e \<longleftrightarrow> r = Inl e"
  by (cases r) (auto simp: outcome_def)

lemma bpe_miss:
  "dict_get (cache self) token = None \<Longrightarrow> outcome (bpe self token) = bpe_value self token"
  by (simp add: bpe_value_def bpe_def dict_get_def Let_def split: sum.splits)

lemma dict_get_take: "dict_get (take n d) k = Some v \<Longrightarrow> dict_get d k = Some v"
proof -
  assume "dict_get (take n d) k = Some v"
  then have "map_of (take n d @ drop n d) k = Some v"
    unfolding map_of_append by (simp add: dict_get_def map_add_Some_iff)
  then show ?thesis by (simp add: dict_get_def)
qed

lemma bpe_value_cache [simp]: "bpe_value (self\<lparr>cache := c\<rparr>) token = bpe_value self token"
  by (simp add: bpe_value_def)

lemma bpe_cache_sound:
  assumes "cache_sound self" and "bpe self token = Inr (merged, self')"
  shows "cache_sound self' \<and> bpe_value self token = Inr merged"
proof (cases "dict_get (cache self) token")
  case (Some cached)
  with assms(2) have "self' = self" and "merged = cached"
    by (simp_all add: bpe_def)
  with assms(1) Some show ?thesis
    by (simp add: cache_sound_def)
next
  case None
  from bpe_miss [OF None] assms(2) have v: "bpe_value self token = Inr merged"
    by simp
  from bpe_frame [OF assms(2)] have frame: "self' = self\<lparr>cache := cache self'\<rparr>" .
  have sub: "dict_get (cache self') k = Some w \<Longrightarrow>
      dict_get (cache self) k = Some w \<or> (k = token \<and> w = merged)" for k w
    using assms(2) None
    by (auto simp: bpe_def Let_def evict_take dict_get_set
        split: sum.splits if_splits dest!: dict_get_take)
  have "bpe_value self' k = Inr w" if "dict_get (cache self') k = Some w" for k w
  proof -
    have "bpe_value self' k = bpe_value self k"
      by (subst frame) simp
    with sub [OF that] assms(1) v show ?thesis
      by (auto simp: cache_sound_def)
  qed
  with v show ?thesis by (simp add: cache_sound_def)
qed

lemma reachable_cache_sound: "reachable self \<Longrightarrow> cache_sound self"
proof (induction rule: reachable.induct)
  case (init enc bpe_merges errs cc self)
  then show ?case
    by (simp add: cache_sound_def Encoder_init_fields dict_get_def)
next
  case (step self token merged self')
  then show ?case using bpe_cache_sound by blast
qed

lemma bpe_transparent: "reachable self \<Longrightarrow> outcome (bpe self token) = bpe_value self token"
proof (cases "dict_get (cache self) token")
  case None
  then show ?thesis by (rule bpe_miss)
next
  case (Some cached)
  assume "reachable self"
  then have "bpe_value self token = Inr cached"
    using reachable_cache_sound Some by (auto simp: cache_sound_def)
  then show ?thesis using Some by (simp add: bpe_def)
qed

lemma reachable_clear: "reachable self \<Longrightarrow> reachable (self\<lparr>cache := []\<rparr>)"
proof (induction rule: reachable.induct)
  case (init enc bpe_merges errs cc self)
  then have "self\<lparr>cache := []\<rparr> = self"
    by (simp add: Encoder_init_fields)
  with init show ?case by (simp add: reachable.init)
next
  case (step self token merged self')
  from bpe_frame [OF step.hyps(2)] obtain c where "self' = self\<lparr>cache := c\<rparr>" ..
  with step.IH show ?case by simp
qed

lemma chunk_ids_unfold:
  "chunk_ids self chunk =
     (case utf8_encode chunk of
        Inl e \<Rightarrow> Inl e
      | Inr bs \<Rightarrow>
          (case map_err (\<lambda>b. lookup (byte_encoder self) b (KeyInt (int b))) bs of
             Inl e \<Rightarrow> Inl e
           | Inr token \<Rightarrow>
               (case bpe_value self token of
                  Inl e \<Rightarrow> Inl e
                | Inr merged \<Rightarrow>
                    map_err (\<lambda>t. lookup (encoder self) t (KeyStr t)) (str_split [space] merged))))"
proof -
  have enc: "encoder s' = encoder self"
    if "bpe (self\<lparr>cache := []\<rparr>) token = Inr (merged, s')" for token merged s'
    using bpe_frame [OF that] by (metis Encoder.select_convs(1) Encoder.surjective Encoder.update_convs(7))
  show ?thesis
    unfolding chunk_ids_def bpe_value_def
    by (auto simp: outcome_def enc split: sum.splits)
qed

lemma chunk_ids_cache [simp]: "chunk_ids (self\<lparr>cache := c\<rparr>) = chunk_ids self"
  by (simp add: chunk_ids_def fun_eq_iff)

lemma part_ids_cache [simp]: "part_ids (self\<lparr>cache := c\<rparr>) = part_ids self"
  by (simp add: part_ids_def fun_eq_iff)

lemma encode_chunks_ids:
  "reachable self \<Longrightarrow>
   outcome (encode_chunks self chunks acc) =
     (case map_err (chunk_ids self) chunks of
        Inl e \<Rightarrow> Inl e
      | Inr idss \<Rightarrow> Inr (acc @ concat idss))"
proof (induction chunks arbitrary: self acc)
  case Nil
  show ?case by simp
next
  case (Cons chunk rest)
  show ?case
  proof (cases "utf8_encode chunk")
    case (Inl e)
    then show ?thesis by (simp add: chunk_ids_unfold)
  next
    case bs: (Inr bs)
    show ?thesis
    proof (cases "map_err (\<lambda>b. lookup (byte_encoder self) b (KeyInt (int b))) bs")
      case (Inl e)
      then show ?thesis using bs by (simp add: chunk_ids_unfold)
    next
      case tok: (Inr token)
      show ?thesis
      proof (cases "bpe self token")
        case (Inl e)
        then have "bpe_value self token = Inl e"
          using bpe_transparent [OF Cons.prems, of token] by simp
        then show ?thesis using bs tok Inl by (simp add: chunk_ids_unfold)
      next
        case (Inr r)
        obtain merged self' where r: "r = (merged, self')" by (cases r)
        have b: "bpe self token = Inr (merged, self')" using Inr r by simp
        then have v: "bpe_value self token = Inr merged"
          using bpe_transparent [OF Cons.prems, of token] by simp
        have reach: "reachable self'"
          using Cons.prems b by (rule reachable.step)
        from bpe_frame [OF b] obtain c where frame: "self' = self\<lparr>cache := c\<rparr>" ..
        have same: "chunk_ids self' = chunk_ids self" "encoder self' = encoder self"
          by (simp_all add: frame fun_eq_iff)
        show ?thesis
        proof (cases "map_err (\<lambda>t. lookup (encoder self) t (KeyStr t)) (str_split [space] merged)")
          case (Inl e)
          then show ?thesis using bs tok b v same by (simp add: chunk_ids_unfold)
        next
          case ids: (Inr ids)
          show ?thesis
            using bs tok b v same ids Cons.IH [OF reach, of "acc @ ids"]
            by (simp add: chunk_ids_unfold split: sum.splits)
        qed
      qed
    qed
  qed
qed

lemma encode_chunks_state:
  "encode_chunks self chunks acc = Inr (ids, self') \<Longrightarrow> \<exists>c. self' = self\<lparr>cache := c\<rparr>"
proof (induction chunks arbitrary: self acc)
  case Nil
  then have "self' = self\<lparr>cache := cache self\<rparr>" by simp
  then show ?case ..
next
  case (Cons token rest)
  from Cons.prems obtain token' merged self1 new_ids where
    b: "bpe self token' = Inr (merged, self1)"
    and r: "encode_chunks self1 rest (acc @ new_ids) = Inr (ids, self')"
    by (auto split: sum.splits prod.splits)
  from bpe_frame [OF b] obtain c1 where "self1 = self\<lparr>cache := c1\<rparr>" ..
  moreover from Cons.IH [OF r] obtain c where "self' = self1\<lparr>cache := c\<rparr>" ..
  ultimately have "self' = self\<lparr>cache := c\<rparr>" by simp
  then show ?case ..
qed

lemma encode_parts_ids:
  assumes "reachable self"
  shows "outcome (encode_parts self parts (Some m) acc) =
     (case map_err (part_ids self) parts of
        Inl e \<Rightarrow> Inl e
      | Inr idss \<Rightarrow> Inr (acc @ concat (map (\<lambda>ids. m # ids) idss)))"
  using assms
proof (induction parts arbitrary: self acc)
  case Nil
  show ?case by simp
next
  case (Cons part parts)
  show ?case
  proof (cases "encode_chunks self (findall (pat self) part) (acc @ [m])")
    case (Inl e)
    then have "part_ids self part = Inl e"
      using encode_chunks_ids [OF Cons.prems, of "findall (pat self) part" "acc @ [m]"]
      by (simp add: part_ids_def split: sum.splits)
    then show ?thesis using Inl by simp
  next
    case (Inr r)
    obtain toks self' where r: "r = (toks, self')" by (cases r)
    have c: "encode_chunks self (findall (pat self) part) (acc @ [m]) = Inr (toks, self')"
      using Inr r by simp
    from encode_chunks_ids [OF Cons.prems, of "findall (pat self) part" "acc @ [m]"] c
    obtain ids where p: "part_ids self part = Inr ids" and toks: "toks = acc @ m # ids"
      by (auto simp: part_ids_def split: sum.splits)
    have reach: "reachable self'"
      using Cons.prems c by (rule encode_chunks_reachable)
    from encode_chunks_state [OF c] obtain c' where "self' = self\<lparr>cache := c'\<rparr>" ..
    then have same: "part_ids self' = part_ids self"
      by (simp add: fun_eq_iff)
    show ?thesis
      using c p toks Cons.IH [OF reach, of toks] same
      by (simp split: sum.splits)
  qed
qed

lemma str_split_nonempty: "str_split sep s \<noteq> []"
  by (cases s) (auto split: list.splits)

lemma join_ids_Cons: "join_ids m (x # xs) = x @ concat (map (\<lambda>ids. m # ids) xs)"
  by (induction xs arbitrary: x) simp_all

lemma encode_ids:
  assumes "reachable self" and "dict_get (encoder self) endoftext = Some m"
  shows "outcome (encode self input) =
     (case map_err (part_ids self) (str_split endoftext input) of
        Inl e \<Rightarrow> Inl e
      | Inr idss \<Rightarrow> Inr (join_ids m idss))"
proof -
  obtain part parts where sp: "str_split endoftext input = part # parts"
    using str_split_nonempty [of endoftext input] by (cases "str_split endoftext input") auto
  show ?thesis
  proof (cases "encode_chunks self (findall (pat self) part) []")
    case (Inl e)
    then have "part_ids self part = Inl e"
      using encode_chunks_ids [OF assms(1), of "findall (pat self) part" "[]"]
      by (simp add: part_ids_def split: sum.splits)
    then show ?thesis using Inl assms(2) by (simp add: encode_def sp lookup_def)
  next
    case (Inr r)
    obtain toks self' where r: "r = (toks, self')" by (cases r)
    have c: "encode_chunks self (findall (pat self) part) [] = Inr (toks, self')"
      using Inr r by simp
    from encode_chunks_ids [OF assms(1), of "findall (pat self) part" "[]"] c
    have p: "part_ids self part = Inr toks"
      by (auto simp: part_ids_def split: sum.splits)
    have reach: "reachable self'"
      using assms(1) c by (rule encode_chunks_reachable)
    from encode_chunks_state [OF c] obtain c' where "self' = self\<lparr>cache := c'\<rparr>" ..
    then have same: "part_ids self' = part_ids self"
      by (simp add: fun_eq_iff)
    show ?thesis
      using c p assms(2) encode_parts_ids [OF reach, of parts m toks] same
      by (simp add: encode_def sp lookup_def join_ids_Cons split: sum.splits)
  qed
qed

section \<open>bpe computes the greedy merge\<close>

lemma zip_upt_nth: "(p, r) \<in> set (zip ms [0..<length ms]) \<Longrightarrow> ms ! r = p"
  by (auto simp: in_set_zip)

lemma ranks_of_merges_inj: "ranks_inj (dict_of (zip ms [0..<length ms]))"
proof -
  have "ms ! r = p" if "dict_get (dict_of (zip ms [0..<length ms])) p = Some r" for p r
  proof -
    from that have "map_of (rev (zip ms [0..<length ms])) p = Some r"
      by (simp add: dict_of_get)
    then have "(p, r) \<in> set (rev (zip ms [0..<length ms]))"
      by (rule map_of_SomeD)
    then show ?thesis
      using zip_upt_nth [of p r ms] by simp
  qed
  then show ?thesis
    unfolding ranks_inj_def by blast
qed

lemma reachable_ranks_inj: "reachable self \<Longrightarrow> ranks_inj (bpe_ranks self)"
proof (induction rule: reachable.induct)
  case (init enc bpe_merges errs cc self)
  then show ?case by (simp add: Encoder_init_fields ranks_of_merges_inj)
next
  case (step self token merged self')
  from bpe_frame [OF step.hyps(2)] obtain c where "self' = self\<lparr>cache := c\<rparr>" ..
  with step.IH show ?case by simp
qed

lemma min_loop_le: "x \<in> insert best (set xs) \<Longrightarrow> k (min_loop k best xs) \<le> k x"
proof (induction xs arbitrary: best x)
  case Nil
  then show ?case by simp
next
  case (Cons y ys)
  let ?b = "if k y < k best then y else best"
  have step: "k (min_loop k ?b ys) \<le> k ?b"
    using Cons.IH [where best = ?b and x = ?b] by simp
  from Cons.prems consider "x = best" | "x = y" | "x \<in> set ys" by auto
  then show ?case
  proof cases
    case 1
    then show ?thesis using step by (auto split: if_splits)
  next
    case 2
    then show ?thesis using step by (auto split: if_splits)
  next
    case 3
    then show ?thesis using Cons.IH [where best = ?b and x = x] by simp
  qed
qed

lemma py_min_le: "py_min k xs = Inr b \<Longrightarrow> x \<in> set xs \<Longrightarrow> k b \<le> k x"
  using min_loop_le [of x "hd xs" "tl xs" k]
  by (cases xs) (auto simp: py_min_def)

lemma rank_key_finite: "rank_key ranks p \<noteq> \<infinity> \<longleftrightarrow> dict_mem p ranks"
  by (simp add: rank_key_def dict_mem_def split: option.splits)

lemma rank_key_eq:
  assumes "ranks_inj ranks" and "dict_mem p ranks" and "rank_key ranks p = rank_key ranks q"
  shows "p = q"
proof -
  from assms(2) obtain r where p: "dict_get ranks p = Some r"
    by (auto simp: dict_mem_def)
  with assms(3) have "dict_get ranks q = Some r"
    by (auto simp: rank_key_def split: option.splits)
  with p assms(1) show ?thesis
    unfolding ranks_inj_def by blast
qed

lemma greedy_stop:
  "length word \<le> 1 \<or> (\<forall>p\<in>set (zip word (tl word)). \<not> dict_mem p ranks) \<Longrightarrow>
     greedy ranks word = word"
  by (subst greedy.simps) (simp add: Let_def)

lemma greedy_step:
  assumes "\<not> (length word \<le> 1 \<or> (\<forall>p\<in>set (zip word (tl word)). \<not> dict_mem p ranks))"
  shows "greedy ranks word =
       greedy ranks (merge_pass (fst (arg_min_list (rank_key ranks) (zip word (tl word))))
                                (snd (arg_min_list (rank_key ranks) (zip word (tl word)))) word)"
  by (subst greedy.simps) (simp only: Let_def assms if_False)

text \<open>The loop of \<open>bpe\<close> computes the same word, in whatever order the set of pairs is
  iterated.\<close>

lemma bpe_loop_greedy:
  "ranks_inj ranks \<Longrightarrow> pairs \<noteq> [] \<Longrightarrow> set pairs = set (zip word (tl word)) \<Longrightarrow>
     bpe_loop ranks word pairs = Inr (greedy ranks word)"
proof (induction ranks word pairs rule: bpe_loop.induct)
  case (1 ranks word pairs)
  let ?adj = "zip word (tl word)"
  have adj_ne: "?adj \<noteq> []"
    using "1.prems"(2,3) by auto
  then have len: "\<not> length word \<le> 1"
    by (cases word; cases "tl word") auto
  from "1.prems"(2) obtain bigram where m: "py_min (rank_key ranks) pairs = Inr bigram"
    by (cases pairs) (auto simp: py_min_def)
  have mem: "bigram \<in> set ?adj"
    using py_min_mem [OF m] "1.prems"(3) by simp
  have least: "rank_key ranks bigram \<le> rank_key ranks p" if "p \<in> set ?adj" for p
    using py_min_le [OF m, of p] that "1.prems"(3) by simp
  show ?case
  proof (cases "dict_mem bigram ranks")
    case False
    then have "rank_key ranks bigram = \<infinity>"
      using rank_key_finite [of ranks bigram] by simp
    then have "rank_key ranks p = \<infinity>" if "p \<in> set ?adj" for p
      using least [OF that] by simp
    then have "\<forall>p\<in>set ?adj. \<not> dict_mem p ranks"
      using rank_key_finite by blast
    then have "greedy ranks word = word"
      by (simp add: greedy_stop)
    then show ?thesis
      using m False by (simp add: bpe_loop.simps [of ranks word pairs])
  next
    case in_table: True
    let ?best = "arg_min_list (rank_key ranks) ?adj"
    have "rank_key ranks ?best = Min (rank_key ranks ` set ?adj)"
      using adj_ne by (rule f_arg_min_list_f)
    moreover have "Min (rank_key ranks ` set ?adj) = rank_key ranks bigram"
      by (rule Min_eqI) (use mem least in auto)
    ultimately have best: "?best = bigram"
      using rank_key_eq [OF "1.prems"(1) in_table, of ?best] by simp
    let ?new = "merge_pass (fst bigram) (snd bigram) word"
    have new: "merge_loop word (fst bigram) (snd bigram) 0 [] = ?new"
      by (rule merge_loop_pass)
    have "\<not> (length word \<le> 1 \<or> (\<forall>p\<in>set ?adj. \<not> dict_mem p ranks))"
      using len mem in_table by blast
    from greedy_step [OF this] have g: "greedy ranks word = greedy ranks ?new"
      by (simp add: best)
    show ?thesis
    proof (cases "length ?new = 1")
      case True
      then have "greedy ranks ?new = ?new"
        by (simp add: greedy_stop)
      then show ?thesis
        using m in_table True g by (simp add: bpe_loop.simps [of ranks word pairs] new)
    next
      case False
      have "?new \<noteq> []"
        using len by (intro merge_pass_nonempty) auto
      with False have "2 \<le> length ?new"
        by (cases ?new) (auto simp: Suc_le_eq)
      from get_pairs_long [OF this] obtain pairs' where
        p: "get_pairs ?new = Inr pairs'" "pairs' \<noteq> []"
        by blast
      have nn: "\<not> \<not> dict_mem bigram ranks" using in_table by simp
      have l: "length (merge_loop word (fst bigram) (snd bigram) 0 []) \<noteq> 1"
        using False by (simp add: new)
      have gp: "get_pairs (merge_loop word (fst bigram) (snd bigram) 0 []) = Inr pairs'"
        using p(1) by (simp add: new)
      have "set pairs' = set (zip (merge_loop word (fst bigram) (snd bigram) 0 [])
          (tl (merge_loop word (fst bigram) (snd bigram) 0 [])))"
        using get_pairs_set [OF gp] .
      from "1.IH" [OF m nn refl l gp "1.prems"(1) p(2) this]
      have "bpe_loop ranks ?new pairs' = Inr (greedy ranks ?new)"
        by (simp add: new)
      then show ?thesis
        using m in_table False g p(1)
        by (simp add: bpe_loop.simps [of ranks word pairs] new)
    qed
  qed
qed

lemma bpe_value_greedy:
  assumes "ranks_inj (bpe_ranks self)" and "token \<noteq> []"
  shows "bpe_value self token =
           Inr (str_join [space] (greedy (bpe_ranks self) (map (\<lambda>c. [c]) token)))"
proof -
  let ?word = "map (\<lambda>c. [c]) token"
  obtain pairs where p: "get_pairs ?word = Inr pairs"
    using assms(2) by (cases token) (auto simp: get_pairs_def)
  show ?thesis
  proof (cases "pairs = []")
    case True
    then have "zip ?word (tl ?word) = []"
      using get_pairs_set [OF p] by simp
    then have one: "length token = 1"
      using assms(2) by (cases token; cases "tl token") auto
    then have "greedy (bpe_ranks self) ?word = ?word"
      by (simp add: greedy_stop)
    moreover have "str_join [space] ?word = token"
      using one by (cases token) auto
    ultimately show ?thesis
      using p True by (simp add: bpe_value_def bpe_def dict_get_def)
  next
    case False
    from bpe_loop_greedy [OF assms(1) False get_pairs_set [OF p]]
    show ?thesis
      using p False by (simp add: bpe_value_def bpe_def dict_get_def Let_def)
  qed
qed

section \<open>Splitting on the separator\<close>

lemma str_join_Cons_head: "str_join sep ((c # f) # fs) = c # str_join sep (f # fs)"
  by (cases fs) simp_all

lemma str_split_sep_append: "sep \<noteq> [] \<Longrightarrow> str_split sep (sep @ rest) = [] # str_split sep rest"
  by (cases sep) simp_all

lemma str_split_join: "sep \<noteq> [] \<Longrightarrow> str_join sep (str_split sep s) = s"
proof (induction sep s rule: str_split.induct)
  case (1 sep)
  show ?case by simp
next
  case (2 sep c cs)
  show ?case
  proof (cases "prefix sep (c # cs)")
    case True
    then obtain rest where rest: "c # cs = sep @ rest"
      by (auto simp: prefix_def)
    have "drop (length sep - 1) cs = drop (length sep) (c # cs)"
      using "2.prems" by (cases sep) simp_all
    then have d: "drop (length sep - 1) cs = rest"
      by (simp add: rest)
    obtain y ys where y: "str_split sep rest = y # ys"
      using str_split_nonempty [of sep rest] by (cases "str_split sep rest") auto
    have "str_join sep (str_split sep rest) = rest"
      using "2.IH"(1) "2.prems" True d by simp
    then have "str_join sep ([] # str_split sep rest) = sep @ rest"
      using y by simp
    then show ?thesis
      unfolding rest using str_split_sep_append [OF "2.prems", of rest] by simp
  next
    case False
    obtain f fs where f: "str_split sep cs = f # fs"
      using str_split_nonempty [of sep cs] by (cases "str_split sep cs") auto
    have "str_join sep (str_split sep cs) = cs"
      using "2.IH"(2) "2.prems" False by simp
    then show ?thesis
      using False f by (simp add: str_join_Cons_head)
  qed
qed

lemma hd_str_split_prefix: "prefix (hd (str_split sep s)) s"
proof (induction sep s rule: str_split.induct)
  case (1 sep)
  show ?case by simp
next
  case (2 sep c cs)
  show ?case
  proof (cases "sep \<noteq> [] \<and> prefix sep (c # cs)")
    case True
    then show ?thesis by simp
  next
    case False
    obtain f fs where f: "str_split sep cs = f # fs"
      using str_split_nonempty [of sep cs] by (cases "str_split sep cs") auto
    from "2.IH"(2) [OF False] f have "prefix f cs" by simp
    then show ?thesis using False f by simp
  qed
qed

text \<open>No fragment contains the separator.\<close>

lemma str_split_fragments:
  "sep \<noteq> [] \<Longrightarrow> part \<in> set (str_split sep s) \<Longrightarrow> \<not> sublist sep part"
proof (induction sep s arbitrary: part rule: str_split.induct)
  case (1 sep)
  then show ?case by simp
next
  case (2 sep c cs)
  show ?case
  proof (cases "sep \<noteq> [] \<and> prefix sep (c # cs)")
    case True
    with "2.prems" have "part = [] \<or> part \<in> set (str_split sep (drop (length sep - 1) cs))"
      by auto
    then show ?thesis
      using "2.IH"(1) [OF True "2.prems"(1)] "2.prems"(1) by auto
  next
    case False
    obtain f fs where f: "str_split sep cs = f # fs"
      using str_split_nonempty [of sep cs] by (cases "str_split sep cs") auto
    from "2.prems"(2) False f have "part = c # f \<or> part \<in> set fs"
      by auto
    then show ?thesis
    proof
      assume "part \<in> set fs"
      then show ?thesis
        using "2.IH"(2) [OF False "2.prems"(1), of part] f by simp
    next
      assume p: "part = c # f"
      have nf: "\<not> sublist sep f"
        using "2.IH"(2) [OF False "2.prems"(1), of f] f by simp
      have "prefix f cs"
        using hd_str_split_prefix [of sep cs] f by simp
      then have "prefix (c # f) (c # cs)" by simp
      then have "\<not> prefix sep (c # f)"
        using False "2.prems"(1) prefix_order.order_trans by blast
      with nf show ?thesis
        by (simp add: p sublist_Cons_right)
    qed
  qed
qed

lemma str_split_absent: "sep \<noteq> [] \<Longrightarrow> \<not> sublist sep s \<Longrightarrow> str_split sep s = [s]"
proof (induction s)
  case Nil
  show ?case by simp
next
  case (Cons c cs)
  from Cons.prems(2) have np: "\<not> prefix sep (c # cs)" and ns: "\<not> sublist sep cs"
    by (simp_all add: sublist_Cons_right)
  from Cons.IH [OF Cons.prems(1) ns] np show ?case by simp
qed

text \<open>The first character of the separator does not occur in it again, so an occurrence of
  the separator cannot begin in the text before a separator and end inside it.\<close>

lemma endoftext_explicit:
  "endoftext = [60, 124, 101, 110, 100, 111, 102, 116, 101, 120, 116, 124, 62]"
  by (simp add: endoftext_def str_of_def)

lemma endoftext_no_overlap:
  assumes "a \<noteq> []" and "\<not> sublist endoftext a"
  shows "\<not> prefix endoftext (a @ endoftext @ b)"
proof
  assume p: "prefix endoftext (a @ endoftext @ b)"
  show False
  proof (cases "length endoftext \<le> length a")
    case True
    with p have "prefix endoftext a"
      by (metis prefix_length_prefix prefixI)
    then show False using assms(2) by (simp add: prefix_imp_sublist)
  next
    case False
    then have k: "length a < length endoftext" by simp
    have "(a @ endoftext @ b) ! length a = endoftext ! length a"
      using p k by (metis prefix_def nth_append)
    moreover have "(a @ endoftext @ b) ! length a = hd endoftext"
      by (simp add: nth_append endoftext_explicit)
    ultimately have "endoftext ! length a = 60"
      by (simp add: endoftext_explicit)
    moreover have "0 < length a" using assms(1) by simp
    ultimately have "60 \<in> set (tl endoftext)"
      using k by (metis Suc_pred length_tl less_diff_conv nth_mem nth_tl Suc_eq_plus1)
    then show False by (simp add: endoftext_explicit)
  qed
qed

lemma str_split_endoftext_append:
  "\<not> sublist endoftext a \<Longrightarrow> str_split endoftext (a @ endoftext @ b) = a # str_split endoftext b"
proof (induction a)
  case Nil
  have "endoftext \<noteq> []"
    by (simp add: endoftext_explicit)
  then show ?case
    by (simp add: str_split_sep_append)
next
  case (Cons c a)
  from Cons.prems have ns: "\<not> sublist endoftext a"
    by (simp add: sublist_Cons_right)
  have "\<not> prefix endoftext ((c # a) @ endoftext @ b)"
    using Cons.prems by (intro endoftext_no_overlap) simp_all
  then show ?case
    using Cons.IH [OF ns] by simp
qed

lemma length_join_ids:
  "idss \<noteq> [] \<Longrightarrow> length (join_ids m idss) = sum_list (map length idss) + (length idss - 1)"
  by (induction m idss rule: join_ids.induct) simp_all

section \<open>UTF-8 decoding inverts encoding\<close>

lemma utf8_next_1: "c < 0x80 \<Longrightarrow> utf8_next (c # rest) = Decoded c 1"
  by (simp add: utf8_next_def)

lemma utf8_next_2:
  assumes "0x80 \<le> c" and "c < 0x800"
  shows "utf8_next ([0xC0 + c div 64, 0x80 + c mod 64] @ rest) = Decoded c 2"
proof -
  define q where "q = c div 64"
  define r where "r = c mod 64"
  have c: "c = 64 * q + r" and r: "r < 64"
    by (simp_all add: q_def r_def)
  have q: "2 \<le> q" "q < 32"
    using assms c r by linarith+
  have "(0xC0 + q - 0xC0) * 64 + (0x80 + r - 0x80) = c"
    using c by simp
  then show ?thesis
    unfolding q_def [symmetric] r_def [symmetric]
    using q r by (simp add: utf8_next_def continuation_def)
qed

lemma utf8_next_3:
  assumes "0x800 \<le> c" and "c < 0x10000" and "\<not> (0xD800 \<le> c \<and> c \<le> 0xDFFF)"
  shows "utf8_next ([0xE0 + c div 4096, 0x80 + c div 64 mod 64, 0x80 + c mod 64] @ rest) =
           Decoded c 3"
proof -
  define p where "p = c div 4096"
  define q where "q = c div 64 mod 64"
  define r where "r = c mod 64"
  have "c div 64 = 64 * (c div 64 div 64) + c div 64 mod 64"
    by simp
  moreover have "c div 64 div 64 = c div 4096"
    by (simp add: div_mult2_eq [symmetric])
  ultimately have cq: "c div 64 = 64 * p + q"
    by (simp add: p_def q_def)
  have "c = 64 * (c div 64) + r"
    by (simp add: r_def)
  with cq have c: "c = 4096 * p + 64 * q + r"
    by simp
  have r: "r < 64" and q: "q < 64"
    by (simp_all add: q_def r_def)
  have p: "p < 16"
    using assms(2) c by linarith
  have lo: "p = 0 \<longrightarrow> 32 \<le> q"
    using assms(1) c r by auto
  have hi: "p = 13 \<longrightarrow> q < 32"
    using assms(3) c r q by auto
  have "(0xE0 + p - 0xE0) * 4096 + (0x80 + q - 0x80) * 64 + (0x80 + r - 0x80) = c"
    using c by simp
  then show ?thesis
    unfolding p_def [symmetric] q_def [symmetric] r_def [symmetric]
    using p q r lo hi by (auto simp: utf8_next_def continuation_def second_ok_def)
qed

lemma utf8_next_4:
  assumes "0x10000 \<le> c" and "c < 0x110000"
  shows "utf8_next ([0xF0 + c div 262144, 0x80 + c div 4096 mod 64, 0x80 + c div 64 mod 64,
            0x80 + c mod 64] @ rest) = Decoded c 4"
proof -
  define u where "u = c div 262144"
  define p where "p = c div 4096 mod 64"
  define q where "q = c div 64 mod 64"
  define r where "r = c mod 64"
  have "c div 4096 = 64 * (c div 4096 div 64) + c div 4096 mod 64"
    by simp
  moreover have "c div 4096 div 64 = c div 262144"
    by (simp add: div_mult2_eq [symmetric])
  ultimately have cp: "c div 4096 = 64 * u + p"
    by (simp add: u_def p_def)
  have "c div 64 = 64 * (c div 64 div 64) + c div 64 mod 64"
    by simp
  moreover have "c div 64 div 64 = c div 4096"
    by (simp add: div_mult2_eq [symmetric])
  ultimately have cq: "c div 64 = 64 * (64 * u + p) + q"
    using cp by (simp add: q_def)
  have "c = 64 * (c div 64) + r"
    by (simp add: r_def)
  with cq have c: "c = 262144 * u + 4096 * p + 64 * q + r"
    by simp
  have r: "r < 64" and q: "q < 64" and p: "p < 64"
    by (simp_all add: p_def q_def r_def)
  have u: "u < 5"
    using assms(2) c by linarith
  have lo: "u = 0 \<longrightarrow> 16 \<le> p"
    using assms(1) c r q by auto
  have hi: "u = 4 \<longrightarrow> p < 16"
    using assms(2) c by auto
  have "(0xF0 + u - 0xF0) * 262144 + (0x80 + p - 0x80) * 4096 + (0x80 + q - 0x80) * 64
      + (0x80 + r - 0x80) = c"
    using c by simp
  then show ?thesis
    unfolding u_def [symmetric] p_def [symmetric] q_def [symmetric] r_def [symmetric]
    using u p q r lo hi by (auto simp: utf8_next_def continuation_def second_ok_def)
qed

lemma continuation_byte: "(0x80::nat) + x mod 64 < 256"
  using mod_less_divisor [of 64 x] by linarith

lemma utf8_char_scalar:
  assumes "scalar c"
  shows "\<exists>bs. utf8_char c = Inr bs \<and> bs \<noteq> [] \<and> (\<forall>b\<in>set bs. b < 256) \<and>
           (\<forall>rest. utf8_next (bs @ rest) = Decoded c (length bs))"
proof -
  consider "c < 0x80" | "0x80 \<le> c" "c < 0x800"
    | "0x800 \<le> c" "c < 0x10000" "\<not> (0xD800 \<le> c \<and> c \<le> 0xDFFF)"
    | "0x10000 \<le> c" "c < 0x110000"
    using assms unfolding scalar_def by linarith
  then show ?thesis
  proof cases
    case 1
    then show ?thesis
      by (simp add: utf8_char_def utf8_next_1)
  next
    case 2
    have "0xC0 + c div 64 < 256" using 2 by simp
    then have "\<forall>b\<in>set [0xC0 + c div 64, 0x80 + c mod 64]. b < 256"
      using continuation_byte by simp
    then show ?thesis
      using 2 utf8_next_2 [OF 2] by (simp add: utf8_char_def)
  next
    case 3
    have "0xE0 + c div 4096 < 256" using 3 by simp
    then have "\<forall>b\<in>set [0xE0 + c div 4096, 0x80 + c div 64 mod 64, 0x80 + c mod 64]. b < 256"
      using continuation_byte by simp
    then show ?thesis
      using 3 utf8_next_3 [OF 3] by (simp add: utf8_char_def)
  next
    case 4
    have "0xF0 + c div 262144 < 256" using 4 by simp
    then have "\<forall>b\<in>set [0xF0 + c div 262144, 0x80 + c div 4096 mod 64,
        0x80 + c div 64 mod 64, 0x80 + c mod 64]. b < 256"
      using continuation_byte by simp
    then show ?thesis
      using 4 utf8_next_4 [OF 4] by (simp add: utf8_char_def)
  qed
qed

lemma utf8_decode_step:
  assumes "bs \<noteq> []" and "utf8_next (bs @ rest) = Decoded c (length bs)"
  shows "utf8_decode pol (bs @ rest) =
           (case utf8_decode pol rest of Inl e \<Rightarrow> Inl e | Inr cs \<Rightarrow> Inr (c # cs))"
proof -
  obtain b bs' where bs: "bs = b # bs'"
    using assms(1) by (cases bs) auto
  have "drop (length bs - 1) (bs' @ rest) = rest"
    by (simp add: bs)
  then show ?thesis
    using assms(2) by (simp add: bs)
qed

lemma utf8_decode_encode:
  "\<forall>c\<in>set s. scalar c \<Longrightarrow>
     \<exists>bs. utf8_encode s = Inr bs \<and> (\<forall>b\<in>set bs. b < 256) \<and> utf8_decode pol bs = Inr s"
proof (induction s)
  case Nil
  show ?case by simp
next
  case (Cons c s)
  from Cons.prems have "scalar c" by simp
  from utf8_char_scalar [OF this] obtain cb where cb: "utf8_char c = Inr cb" "cb \<noteq> []"
    "\<forall>b\<in>set cb. b < 256" "\<forall>rest. utf8_next (cb @ rest) = Decoded c (length cb)"
    by blast
  from Cons.IH Cons.prems obtain bs where bs: "utf8_encode s = Inr bs" "\<forall>b\<in>set bs. b < 256"
    "utf8_decode pol bs = Inr s"
    by auto
  have "utf8_decode pol (cb @ bs) = Inr (c # s)"
    using utf8_decode_step [OF cb(2), of bs c pol] cb(4) bs(3) by simp
  then show ?case
    using cb(1,3) bs(1,2) by auto
qed

lemma utf8_encode_append:
  "utf8_encode a = Inr ba \<Longrightarrow> utf8_encode b = Inr bb \<Longrightarrow> utf8_encode (a @ b) = Inr (ba @ bb)"
  by (induction a arbitrary: ba) (auto split: sum.splits)

lemma utf8_encode_ascii: "\<forall>c\<in>set s. c < 128 \<Longrightarrow> utf8_encode s = Inr s"
  by (induction s) (auto simp: utf8_char_def)

section \<open>Joining with spaces and splitting again\<close>

lemma str_split_char_absent: "c0 \<notin> set x \<Longrightarrow> str_split [c0] x = [x]"
  by (induction x) auto

lemma str_split_char_append:
  "c0 \<notin> set x \<Longrightarrow> str_split [c0] (x @ c0 # rest) = x # str_split [c0] rest"
  by (induction x) auto

lemma str_split_str_join:
  "syms \<noteq> [] \<Longrightarrow> \<forall>s\<in>set syms. c0 \<notin> set s \<Longrightarrow> str_split [c0] (str_join [c0] syms) = syms"
proof (induction "[c0]" syms rule: str_join.induct)
  case 1
  then show ?case by simp
next
  case (2 x)
  then show ?case by (simp add: str_split_char_absent)
next
  case (3 x y rest)
  then show ?case by (simp add: str_split_char_append)
qed

lemma set_str_join: "p \<in> set ps \<Longrightarrow> set p \<subseteq> set (str_join sep ps)"
  by (induction sep ps rule: str_join.induct) auto

section \<open>The symbols that the merges produce\<close>

lemma set_merge_pass: "set (merge_pass l r xs) \<subseteq> insert (l @ r) (set xs)"
  by (induction l r xs rule: merge_pass.induct) auto

lemma arg_min_rank_mem:
  assumes "p \<in> set adjacent" and "dict_mem p ranks"
  shows "dict_mem (arg_min_list (rank_key ranks) adjacent) ranks"
proof -
  have ne: "adjacent \<noteq> []" using assms(1) by auto
  have "rank_key ranks (arg_min_list (rank_key ranks) adjacent) = Min (rank_key ranks ` set adjacent)"
    using ne by (rule f_arg_min_list_f)
  also have "\<dots> \<le> rank_key ranks p"
    using assms(1) by simp
  finally have le: "rank_key ranks (arg_min_list (rank_key ranks) adjacent) \<le> rank_key ranks p" .
  have "rank_key ranks (arg_min_list (rank_key ranks) adjacent) \<noteq> \<infinity>"
  proof
    assume "rank_key ranks (arg_min_list (rank_key ranks) adjacent) = \<infinity>"
    with le have "rank_key ranks p = \<infinity>" by simp
    then show False
      using assms(2) rank_key_finite [of ranks p] by simp
  qed
  then show ?thesis
    using rank_key_finite [of ranks "arg_min_list (rank_key ranks) adjacent"] by blast
qed

lemma greedy_induct_step:
  assumes "\<not> (length word \<le> 1 \<or> (\<forall>p\<in>set (zip word (tl word)). \<not> dict_mem p ranks))"
  shows "dict_mem (arg_min_list (rank_key ranks) (zip word (tl word))) ranks"
  using assms arg_min_rank_mem by blast

lemma concat_greedy: "concat (greedy ranks word) = concat word"
proof (induction ranks word rule: greedy.induct)
  case (1 ranks word)
  show ?case
  proof (cases "length word \<le> 1 \<or> (\<forall>p\<in>set (zip word (tl word)). \<not> dict_mem p ranks)")
    case True
    then show ?thesis by (simp add: greedy_stop)
  next
    case False
    from "1.IH" [OF refl False refl] greedy_step [OF False] show ?thesis
      by (simp add: concat_merge_pass)
  qed
qed

lemma greedy_nonempty: "word \<noteq> [] \<Longrightarrow> greedy ranks word \<noteq> []"
  using concat_greedy [of ranks word]
proof (induction ranks word rule: greedy.induct)
  case (1 ranks word)
  show ?case
  proof (cases "length word \<le> 1 \<or> (\<forall>p\<in>set (zip word (tl word)). \<not> dict_mem p ranks)")
    case True
    then show ?thesis using "1.prems"(1) by (simp add: greedy_stop)
  next
    case False
    let ?best = "arg_min_list (rank_key ranks) (zip word (tl word))"
    have "merge_pass (fst ?best) (snd ?best) word \<noteq> []"
      using "1.prems"(1) by (rule merge_pass_nonempty)
    from "1.IH" [OF refl False refl this concat_greedy] greedy_step [OF False]
    show ?thesis by simp
  qed
qed

lemma greedy_symbols:
  assumes "\<forall>s\<in>set word. P s" and "\<forall>l r. dict_mem (l, r) ranks \<longrightarrow> P (l @ r)"
  shows "\<forall>s\<in>set (greedy ranks word). P s"
  using assms
proof (induction ranks word rule: greedy.induct)
  case (1 ranks word)
  show ?case
  proof (cases "length word \<le> 1 \<or> (\<forall>p\<in>set (zip word (tl word)). \<not> dict_mem p ranks)")
    case True
    then show ?thesis using "1.prems"(1) by (simp add: greedy_stop)
  next
    case False
    let ?best = "arg_min_list (rank_key ranks) (zip word (tl word))"
    have "dict_mem (fst ?best, snd ?best) ranks"
      using greedy_induct_step [OF False] by simp
    then have "P (fst ?best @ snd ?best)"
      using "1.prems"(2) by blast
    then have "\<forall>s\<in>set (merge_pass (fst ?best) (snd ?best) word). P s"
      using set_merge_pass [of "fst ?best" "snd ?best" word] "1.prems"(1) by auto
    from "1.IH" [OF refl False refl this "1.prems"(2)] greedy_step [OF False]
    show ?thesis by simp
  qed
qed

section \<open>Encoding and decoding again\<close>

lemma symbol_ids_append:
  "symbol_ids enc s1 i1 \<Longrightarrow> symbol_ids enc s2 i2 \<Longrightarrow> symbol_ids enc (s1 @ s2) (i1 @ i2)"
  by (simp add: symbol_ids_def list_all2_appendI)

lemma symbol_ids_exist:
  "\<forall>s\<in>set syms. dict_mem s enc \<Longrightarrow> \<exists>ids. symbol_ids enc syms ids"
proof (induction syms)
  case Nil
  show ?case by (simp add: symbol_ids_def)
next
  case (Cons s syms)
  then obtain ids i where "symbol_ids enc syms ids" and "dict_get enc s = Some i"
    by (auto simp: dict_mem_def)
  then have "symbol_ids enc (s # syms) (i # ids)"
    by (simp add: symbol_ids_def)
  then show ?case ..
qed

lemma map_err_lookup_symbols:
  "symbol_ids enc syms ids \<Longrightarrow> map_err (\<lambda>t. lookup enc t (KeyStr t)) syms = Inr ids"
  unfolding symbol_ids_def map_err_Inr_iff
  by (erule list_all2_mono) (simp add: lookup_def)

lemma map_err_byte_encoder:
  "\<forall>b\<in>set bs. b < 256 \<Longrightarrow>
     map_err (\<lambda>b. lookup bytes_to_unicode b (KeyInt (int b))) bs = Inr (map byte_char bs)"
  by (induction bs) (simp_all add: lookup_def byte_encoder_get)

lemma map_err_byte_decoder:
  "\<forall>b\<in>set bs. b < 256 \<Longrightarrow>
     map_err (\<lambda>c. lookup (dict_invert bytes_to_unicode) c (KeyStr [c])) (map byte_char bs) = Inr bs"
  by (induction bs) (simp_all add: lookup_def byte_decoder_get)

lemma snd_bytes_to_unicode: "snd ` set bytes_to_unicode = byte_char ` {0..<256}"
proof -
  have "snd ` set bytes_to_unicode = set (map snd bytes_to_unicode)"
    by simp
  also have "\<dots> = byte_char ` set (printable_bytes @ other_bytes)"
    by (simp only: bytes_to_unicode_values set_map)
  finally show ?thesis
    by (simp only: set_all_bytes)
qed

lemma covers_single: "covers self \<Longrightarrow> b < 256 \<Longrightarrow> dict_mem [byte_char b] (encoder self)"
  unfolding covers_def snd_bytes_to_unicode by auto

lemma concat_singletons: "concat (map (\<lambda>c. [c]) xs) = xs"
  by (induction xs) simp_all

lemma chunk_round:
  assumes "reachable self" and "covers self" and "chunk \<noteq> []" and "\<forall>c\<in>set chunk. scalar c"
  shows "\<exists>ids syms bs. chunk_ids self chunk = Inr ids \<and> utf8_encode chunk = Inr bs \<and>
           (\<forall>b\<in>set bs. b < 256) \<and> symbol_ids (encoder self) syms ids \<and>
           concat syms = map byte_char bs"
proof -
  from utf8_decode_encode [OF assms(4), of Strict] obtain bs where
    bs: "utf8_encode chunk = Inr bs" "\<forall>b\<in>set bs. b < 256"
    by blast
  have bs_ne: "bs \<noteq> []"
    using utf8_encode_nonempty [OF bs(1) assms(3)] .
  define token where "token = map byte_char bs"
  define word where "word = map (\<lambda>c. [c]) token"
  define syms where "syms = greedy (bpe_ranks self) word"
  have token_ne: "token \<noteq> []" and word_ne: "word \<noteq> []"
    using bs_ne by (simp_all add: token_def word_def)
  have be: "byte_encoder self = bytes_to_unicode"
    using reachable_byte_maps [OF assms(1)] by simp
  have tok: "map_err (\<lambda>b. lookup (byte_encoder self) b (KeyInt (int b))) bs = Inr token"
    unfolding be token_def using bs(2) by (rule map_err_byte_encoder)
  have v: "bpe_value self token = Inr (str_join [space] syms)"
    unfolding syms_def word_def
    using reachable_ranks_inj [OF assms(1)] token_ne by (rule bpe_value_greedy)
  have "concat word = token"
    unfolding word_def by (rule concat_singletons)
  then have cat: "concat syms = token"
    by (simp only: syms_def concat_greedy)
  have syms_ne: "syms \<noteq> []"
    unfolding syms_def using word_ne by (rule greedy_nonempty)
  have "\<forall>s\<in>set word. dict_mem s (encoder self)"
    using bs(2) covers_single [OF assms(2)] by (auto simp: word_def token_def)
  moreover have "\<forall>l r. dict_mem (l, r) (bpe_ranks self) \<longrightarrow> dict_mem (l @ r) (encoder self)"
    using assms(2) by (simp add: covers_def)
  ultimately have in_vocab: "\<forall>s\<in>set syms. dict_mem s (encoder self)"
    unfolding syms_def by (rule greedy_symbols)
  from symbol_ids_exist [OF this] obtain ids where ids: "symbol_ids (encoder self) syms ids"
    by blast
  have "space \<notin> set token"
    using bs(2) byte_char_not_space by (auto simp: space_def token_def)
  then have "\<forall>s\<in>set syms. space \<notin> set s"
    using cat by (metis UN_I set_concat)
  with syms_ne have sp: "str_split [space] (str_join [space] syms) = syms"
    by (rule str_split_str_join)
  have "chunk_ids self chunk = Inr ids"
    by (simp add: chunk_ids_unfold bs(1) tok v sp map_err_lookup_symbols [OF ids])
  then show ?thesis
    using bs ids cat token_def by blast
qed

lemma chunks_round:
  assumes "reachable self" and "covers self"
  shows "\<forall>chunk\<in>set chunks. chunk \<noteq> [] \<and> (\<forall>c\<in>set chunk. scalar c) \<Longrightarrow>
     \<exists>idss syms bs. map_err (chunk_ids self) chunks = Inr idss \<and>
        utf8_encode (concat chunks) = Inr bs \<and> (\<forall>b\<in>set bs. b < 256) \<and>
        symbol_ids (encoder self) syms (concat idss) \<and> concat syms = map byte_char bs"
proof (induction chunks)
  case Nil
  have "symbol_ids (encoder self) [] []"
    by (simp add: symbol_ids_def)
  then show ?case by auto
next
  case (Cons chunk chunks)
  from Cons.prems have "chunk \<noteq> []" "\<forall>c\<in>set chunk. scalar c"
    by simp_all
  from chunk_round [OF assms this] obtain ids syms bs where
    c: "chunk_ids self chunk = Inr ids" "utf8_encode chunk = Inr bs" "\<forall>b\<in>set bs. b < 256"
      "symbol_ids (encoder self) syms ids" "concat syms = map byte_char bs"
    by blast
  from Cons.IH Cons.prems obtain idss syms' bs' where
    r: "map_err (chunk_ids self) chunks = Inr idss" "utf8_encode (concat chunks) = Inr bs'"
      "\<forall>b\<in>set bs'. b < 256" "symbol_ids (encoder self) syms' (concat idss)"
      "concat syms' = map byte_char bs'"
    by auto
  have "map_err (chunk_ids self) (chunk # chunks) = Inr (ids # idss)"
    using c(1) r(1) by simp
  moreover have "utf8_encode (concat (chunk # chunks)) = Inr (bs @ bs')"
    using utf8_encode_append [OF c(2) r(2)] by simp
  moreover have "\<forall>b\<in>set (bs @ bs'). b < 256"
    using c(3) r(3) by auto
  moreover have "symbol_ids (encoder self) (syms @ syms') (concat (ids # idss))"
    using symbol_ids_append [OF c(4) r(4)] by simp
  moreover have "concat (syms @ syms') = map byte_char (bs @ bs')"
    using c(5) r(5) by simp
  ultimately show ?case by blast
qed

lemma part_round:
  assumes "reachable self" and "covers self" and "\<forall>c\<in>set part. scalar c"
  shows "\<exists>ids syms bs. part_ids self part = Inr ids \<and> utf8_encode part = Inr bs \<and>
           (\<forall>b\<in>set bs. b < 256) \<and> symbol_ids (encoder self) syms ids \<and>
           concat syms = map byte_char bs"
proof -
  let ?chunks = "findall (pat self) part"
  have cat: "concat ?chunks = part" and ne: "[] \<notin> set ?chunks"
    using findall_chunks [of "pat self" part] by simp_all
  have "\<forall>chunk\<in>set ?chunks. chunk \<noteq> [] \<and> (\<forall>c\<in>set chunk. scalar c)"
  proof
    fix chunk assume m: "chunk \<in> set ?chunks"
    then have "set chunk \<subseteq> set (concat ?chunks)" by auto
    with m ne assms(3) show "chunk \<noteq> [] \<and> (\<forall>c\<in>set chunk. scalar c)"
      unfolding cat by auto
  qed
  from chunks_round [OF assms(1,2) this] obtain idss syms bs where
    "map_err (chunk_ids self) ?chunks = Inr idss" "utf8_encode (concat ?chunks) = Inr bs"
    "\<forall>b\<in>set bs. b < 256" "symbol_ids (encoder self) syms (concat idss)"
    "concat syms = map byte_char bs"
    by blast
  then show ?thesis
    unfolding cat by (auto simp: part_ids_def)
qed

lemma endoftext_ascii:
  "utf8_encode endoftext = Inr endoftext \<and> map byte_char endoftext = endoftext \<and>
   (\<forall>b\<in>set endoftext. b < 256)"
proof -
  have "\<forall>c\<in>set endoftext. c < 128"
    by (simp add: endoftext_explicit)
  then have "utf8_encode endoftext = Inr endoftext"
    by (rule utf8_encode_ascii)
  moreover have "map byte_char endoftext = endoftext"
    by (simp add: endoftext_explicit byte_char_def)
  moreover have "\<forall>b\<in>set endoftext. b < 256"
    by (simp add: endoftext_explicit)
  ultimately show ?thesis by simp
qed

lemma parts_round:
  assumes "reachable self" and "covers self" and "dict_get (encoder self) endoftext = Some m"
  shows "parts \<noteq> [] \<Longrightarrow> \<forall>part\<in>set parts. \<forall>c\<in>set part. scalar c \<Longrightarrow>
     \<exists>idss syms bs. map_err (part_ids self) parts = Inr idss \<and>
        utf8_encode (str_join endoftext parts) = Inr bs \<and> (\<forall>b\<in>set bs. b < 256) \<and>
        symbol_ids (encoder self) syms (join_ids m idss) \<and> concat syms = map byte_char bs"
proof (induction parts)
  case Nil
  then show ?case by simp
next
  case (Cons part parts)
  from Cons.prems have "\<forall>c\<in>set part. scalar c" by simp
  from part_round [OF assms(1,2) this] obtain ids syms bs where
    p: "part_ids self part = Inr ids" "utf8_encode part = Inr bs" "\<forall>b\<in>set bs. b < 256"
      "symbol_ids (encoder self) syms ids" "concat syms = map byte_char bs"
    by blast
  show ?case
  proof (cases parts)
    case Nil
    have "map_err (part_ids self) [part] = Inr [ids]"
      using p(1) by simp
    then show ?thesis
      using Nil p by (intro exI [of _ "[ids]"] exI [of _ syms] exI [of _ bs]) simp
  next
    case (Cons part' parts')
    then have "parts \<noteq> []" by simp
    from Cons.IH [OF this] Cons.prems(2) obtain idss syms' bs' where
      r: "map_err (part_ids self) parts = Inr idss"
        "utf8_encode (str_join endoftext parts) = Inr bs'" "\<forall>b\<in>set bs'. b < 256"
        "symbol_ids (encoder self) syms' (join_ids m idss)" "concat syms' = map byte_char bs'"
      by auto
    obtain ids' idss' where idss: "idss = ids' # idss'"
      using r(1) Cons by (cases idss) (auto split: sum.splits)
    have sep: "symbol_ids (encoder self) [endoftext] [m]"
      using assms(3) by (simp add: symbol_ids_def)
    have "map_err (part_ids self) (part # parts) = Inr (ids # idss)"
      using p(1) r(1) by simp
    moreover have "utf8_encode (str_join endoftext (part # parts)) = Inr (bs @ endoftext @ bs')"
      using utf8_encode_append [OF p(2) utf8_encode_append [OF _ r(2), of endoftext endoftext]]
        endoftext_ascii Cons
      by simp
    moreover have "\<forall>b\<in>set (bs @ endoftext @ bs'). b < 256"
      using p(3) r(3) endoftext_ascii by auto
    moreover have "symbol_ids (encoder self) (syms @ [endoftext] @ syms') (join_ids m (ids # idss))"
      using symbol_ids_append [OF p(4) symbol_ids_append [OF sep r(4)]] idss by simp
    moreover have "concat (syms @ [endoftext] @ syms') = map byte_char (bs @ endoftext @ bs')"
      using p(5) r(5) endoftext_ascii by simp
    ultimately show ?thesis by blast
  qed
qed

lemma decode_cache [simp]: "decode (self\<lparr>cache := c\<rparr>) ids = decode self ids"
  by (auto simp: decode_def split: sum.splits)

lemma decode_round:
  assumes "reachable self" and "unique_ids (encoder self)"
    and "symbol_ids (encoder self) syms ids" and "concat syms = map byte_char bs"
    and "\<forall>b\<in>set bs. b < 256" and "utf8_decode (errors self) bs = Inr t"
  shows "decode self ids = Inr t"
proof -
  have dec: "decoder self = dict_invert (encoder self)"
    using reachable_encoder [OF assms(1)] by simp
  have bd: "byte_decoder self = dict_invert bytes_to_unicode"
    using reachable_byte_maps [OF assms(1)] by simp
  have "list_all2 (\<lambda>i s. lookup (decoder self) i (KeyInt i) = Inr s) ids syms"
    using assms(3) unfolding symbol_ids_def list_all2_conv_all_nth
    using dict_invert_get_Some [OF _ assms(2) [unfolded unique_ids_def]]
    by (auto simp: lookup_def dec)
  then have syms: "map_err (\<lambda>token. lookup (decoder self) token (KeyInt token)) ids = Inr syms"
    by (simp add: map_err_Inr_iff)
  have bytes: "map_err (\<lambda>c. lookup (byte_decoder self) c (KeyStr [c])) (concat syms) = Inr bs"
    unfolding bd assms(4) using assms(5) by (rule map_err_byte_decoder)
  have "\<not> list_ex (\<lambda>b. 256 \<le> b) bs"
    using assms(5) by (auto simp: list_ex_iff)
  then show ?thesis
    by (simp add: decode_def syms bytes assms(6))
qed

lemma encode_parts_state:
  "encode_parts self parts mid acc = Inr (ids, self') \<Longrightarrow> \<exists>c. self' = self\<lparr>cache := c\<rparr>"
proof (induction parts arbitrary: self mid acc)
  case Nil
  then have "self' = self\<lparr>cache := cache self\<rparr>" by simp
  then show ?case ..
next
  case (Cons part parts)
  from Cons.prems obtain m toks self1 acc1 where
    c: "encode_chunks self (findall (pat self) part) acc1 = Inr (toks, self1)"
    and r: "encode_parts self1 parts (Some m) toks = Inr (ids, self')"
    by (cases mid) (auto split: sum.splits prod.splits)
  from encode_chunks_state [OF c] obtain c1 where "self1 = self\<lparr>cache := c1\<rparr>" ..
  moreover from Cons.IH [OF r] obtain c2 where "self' = self1\<lparr>cache := c2\<rparr>" ..
  ultimately have "self' = self\<lparr>cache := c2\<rparr>" by simp
  then show ?case ..
qed

section \<open>Facts about the example objects\<close>

lemma example_init:
  "Encoder_init example_vocab example_merges Replace example_class = Inr example_encoder"
proof -
  have "endoftext \<in> fst ` set example_vocab"
    by (simp add: example_vocab_def)
  then have "dict_mem endoftext example_vocab"
    by (simp add: dict_mem_def dict_get_def map_of_eq_None_iff)
  then show ?thesis
    by (simp add: Encoder_init_def example_encoder_def)
qed

lemma example_reachable: "reachable example_encoder"
  using example_init by (rule reachable.init)

lemma tiny_reachable: "reachable tiny_encoder"
proof -
  have "dict_mem endoftext tiny_vocab"
    by (simp add: dict_mem_def dict_get_def tiny_vocab_def)
  then have "Encoder_init tiny_vocab [] Replace example_class = Inr tiny_encoder"
    by (simp add: Encoder_init_def tiny_encoder_def)
  then show ?thesis by (rule reachable.init)
qed

lemma example_bpe_ab:
  "bpe example_encoder (str_of ''ab'') =
     Inr (str_of ''ab'', example_encoder\<lparr>cache := [(str_of ''ab'', str_of ''ab'')]\<rparr>)"
  by (simp add: bpe_def example_encoder_def example_merges_def str_of_def dict_get_def
      get_pairs_def bpe_loop.simps py_min_def rank_key_def dict_of_def dict_set_def dict_mem_def
      merge_loop_pass evict.simps space_def upt_rec_numeral Let_def)

lemma example_findall:
  "findall (pat example_encoder) (str_of ''a b'') = [str_of ''a'', str_of '' b'']"
  by (simp add: example_encoder_def example_class_def str_of_def pat_match_def re_lit_def
      re_plus_def re_opt_space_plus_def re_space_lookahead_def apostrophe_def space_def Let_def)

lemma example_surrogates:
  "utf8_encode (str_of '' b'') = Inr [32, 98] \<and>
   map_err (\<lambda>b. lookup (byte_encoder example_encoder) b (KeyInt (int b))) [32, 98] = Inr [288, 98]"
  by (simp add: str_of_def utf8_char_def example_encoder_def lookup_def byte_encoder_get
      byte_char_def)

lemma example_warm_reachable: "reachable example_encoder_warm"
  unfolding example_encoder_warm_def
  using example_reachable example_bpe_ab by (rule reachable.step)

lemma map_of_map_keys:
  "inj_on f (set xs) \<Longrightarrow> x \<in> set xs \<Longrightarrow> map_of (map (\<lambda>x. (f x, g x)) xs) (f x) = Some (g x)"
  by (induction xs) (auto simp: inj_on_def)

lemma example_vocab_closed:
  "example_vocab =
     map (\<lambda>b. ([byte_char b], int b)) (printable_bytes @ other_bytes) @
       [(str_of ''ab'', 256), (endoftext, 257)]"
  by (simp add: example_vocab_def bytes_to_unicode_closed)

lemma dict_get_append_first: "map_of xs k = Some v \<Longrightarrow> dict_get (xs @ ys) k = Some v"
  by (simp add: dict_get_def)

lemma dict_get_append_second: "k \<notin> fst ` set xs \<Longrightarrow> dict_get (xs @ ys) k = map_of ys k"
proof -
  assume "k \<notin> fst ` set xs"
  then have "map_of xs k = None"
    by (simp add: map_of_eq_None_iff)
  then show ?thesis
    by (simp add: dict_get_def map_add_def)
qed

lemma example_vocab_single: "b < 256 \<Longrightarrow> dict_get example_vocab [byte_char b] = Some (int b)"
proof -
  assume b: "b < 256"
  have "inj_on (\<lambda>b. [byte_char b]) (set (printable_bytes @ other_bytes))"
    unfolding set_all_bytes by (auto simp: inj_on_def dest: byte_char_inj)
  moreover have "b \<in> set (printable_bytes @ other_bytes)"
    unfolding set_all_bytes using b by simp
  ultimately have "map_of (map (\<lambda>b. ([byte_char b], int b)) (printable_bytes @ other_bytes))
      [byte_char b] = Some (int b)"
    by (rule map_of_map_keys)
  then show ?thesis
    unfolding example_vocab_closed by (rule dict_get_append_first)
qed

lemma example_vocab_long:
  "dict_get example_vocab (str_of ''ab'') = Some 256 \<and> dict_get example_vocab endoftext = Some 257"
proof -
  let ?xs = "map (\<lambda>b. ([byte_char b], int b)) (printable_bytes @ other_bytes)"
  have keys: "fst ` set ?xs = (\<lambda>b. [byte_char b]) ` {0..<256}"
    by (simp only: set_map image_image fst_conv set_all_bytes)
  have "k \<notin> fst ` set ?xs" if "length k \<noteq> 1" for k
    unfolding keys using that by auto
  then have "dict_get example_vocab k = map_of [(str_of ''ab'', 256), (endoftext, 257)] k"
    if "length k \<noteq> 1" for k
    unfolding example_vocab_closed using that by (intro dict_get_append_second) blast
  from this [of "str_of ''ab''"] this [of endoftext] show ?thesis
    by (simp add: str_of_def endoftext_def)
qed

lemma example_sep_id: "dict_get (encoder example_encoder) endoftext = Some 257"
  using example_vocab_long by (simp add: example_encoder_def)

lemma example_chunk_single:
  assumes "c < 128" and "byte_char c = c"
  shows "chunk_ids example_encoder [c] = Inr [int c]"
proof -
  have "bpe_value example_encoder [c] = Inr [c]"
    using bpe_value_greedy [OF reachable_ranks_inj [OF example_reachable], of "[c]"]
    by (simp add: greedy_stop)
  moreover have "dict_get example_vocab [c] = Some (int c)"
    using example_vocab_single [of c] assms by simp
  moreover have "c \<noteq> space"
    using assms(2) by (auto simp: space_def byte_char_def)
  ultimately show ?thesis
    using assms
    by (simp add: chunk_ids_unfold utf8_char_def lookup_def byte_encoder_get
        example_encoder_def)
qed

lemma example_part_a: "part_ids example_encoder (str_of ''a'') = Inr [97]"
proof -
  have "findall (pat example_encoder) (str_of ''a'') = [[97]]"
    by (simp add: example_encoder_def example_class_def str_of_def pat_match_def re_lit_def
      re_plus_def re_opt_space_plus_def re_space_lookahead_def apostrophe_def space_def Let_def)
  then show ?thesis
    using example_chunk_single [of 97] by (simp add: part_ids_def byte_char_def)
qed

lemma example_part_b: "part_ids example_encoder (str_of ''b'') = Inr [98]"
proof -
  have "findall (pat example_encoder) (str_of ''b'') = [[98]]"
    by (simp add: example_encoder_def example_class_def str_of_def pat_match_def re_lit_def
      re_plus_def re_opt_space_plus_def re_space_lookahead_def apostrophe_def space_def Let_def)
  then show ?thesis
    using example_chunk_single [of 98] by (simp add: part_ids_def byte_char_def)
qed

lemma short_not_sublist: "length s < length endoftext \<Longrightarrow> \<not> sublist endoftext s"
  by (auto simp: sublist_def)

lemma example_valid_text: "valid_text example_text"
  by (simp add: valid_text_def example_text_def endoftext_explicit scalar_def)

lemma example_covers: "covers example_encoder"
proof -
  have "dict_mem [c] (encoder example_encoder)" if "c \<in> snd ` set bytes_to_unicode" for c
    using that example_vocab_single unfolding snd_bytes_to_unicode
    by (auto simp: example_encoder_def dict_mem_def)
  moreover have "dict_mem (l @ r) (encoder example_encoder)"
    if "dict_mem (l, r) (bpe_ranks example_encoder)" for l r
  proof -
    from that have "(l, r) \<in> fst ` set (bpe_ranks example_encoder)"
      by (simp add: dict_mem_def dict_get_def map_of_eq_None_iff)
    then have "(l, r) = (str_of ''a'', str_of ''b'')"
      by (simp add: example_encoder_def dict_of_keys example_merges_def)
    then have "l @ r = str_of ''ab''"
      by (simp add: str_of_def)
    then show ?thesis
      using example_vocab_long by (simp add: example_encoder_def dict_mem_def)
  qed
  ultimately show ?thesis
    unfolding covers_def by blast
qed

lemma example_unique_ids: "unique_ids (encoder example_encoder)"
proof -
  have "map snd example_vocab = map int (printable_bytes @ other_bytes) @ [256, 257]"
    unfolding example_vocab_closed by (simp add: comp_def)
  moreover have "distinct (map int xs @ [256, 257])"
    if "distinct xs" and "set xs = {0..<256}" for xs :: "nat list"
    using that by (auto simp: distinct_map)
  from this [OF distinct_all_bytes set_all_bytes]
  have "distinct (map int (printable_bytes @ other_bytes) @ [256, 257])" .
  ultimately have "distinct (map snd example_vocab)"
    by simp
  then have "inj_on snd (set example_vocab)"
    by (simp add: distinct_map)
  then show ?thesis
    by (simp add: unique_ids_def example_encoder_def)
qed

lemma chunk_ids_single:
  assumes "reachable self" and "c < 128" and "byte_char c = c"
    and "dict_get (encoder self) [c] = Some i"
  shows "chunk_ids self [c] = Inr [i]"
proof -
  have "bpe_value self [c] = Inr [c]"
    using bpe_value_greedy [OF reachable_ranks_inj [OF assms(1)], of "[c]"]
    by (simp add: greedy_stop)
  moreover have "c \<noteq> space"
    using assms(3) by (auto simp: space_def byte_char_def)
  moreover have "byte_encoder self = bytes_to_unicode"
    using reachable_byte_maps [OF assms(1)] by simp
  ultimately show ?thesis
    using assms(2,3,4)
    by (simp add: chunk_ids_unfold utf8_char_def lookup_def byte_encoder_get)
qed

lemma dup_reachable: "reachable dup_encoder"
proof -
  have "endoftext \<in> fst ` set dup_vocab"
    by (simp add: dup_vocab_def example_vocab_def)
  then have "dict_mem endoftext dup_vocab"
    by (simp add: dict_mem_def dict_get_def map_of_eq_None_iff)
  then have "Encoder_init dup_vocab example_merges Replace example_class = Inr dup_encoder"
    by (simp add: Encoder_init_def dup_encoder_def)
  then show ?thesis by (rule reachable.init)
qed

lemma dup_vocab_get: "dict_get example_vocab k = Some i \<Longrightarrow> dict_get dup_vocab k = Some i"
  unfolding dup_vocab_def by (rule dict_get_append_first) (simp add: dict_get_def)

lemma dup_covers: "covers dup_encoder"
proof -
  have "dict_mem [c] (encoder dup_encoder)" if "c \<in> snd ` set bytes_to_unicode" for c
    using that example_vocab_single dup_vocab_get unfolding snd_bytes_to_unicode
    by (auto simp: dup_encoder_def dict_mem_def)
  moreover have "dict_mem (l @ r) (encoder dup_encoder)"
    if "dict_mem (l, r) (bpe_ranks dup_encoder)" for l r
  proof -
    from that have "(l, r) \<in> fst ` set (bpe_ranks dup_encoder)"
      by (simp add: dict_mem_def dict_get_def map_of_eq_None_iff)
    then have "(l, r) = (str_of ''a'', str_of ''b'')"
      by (simp add: dup_encoder_def dict_of_keys example_merges_def)
    then have "l @ r = str_of ''ab''"
      by (simp add: str_of_def)
    then show ?thesis
      using example_vocab_long dup_vocab_get by (simp add: dup_encoder_def dict_mem_def)
  qed
  ultimately show ?thesis
    unfolding covers_def by blast
qed

lemma dup_encode_a: "outcome (encode dup_encoder (str_of ''a'')) = Inr [97]"
proof -
  have m: "dict_get (encoder dup_encoder) endoftext = Some 257"
    using example_vocab_long dup_vocab_get by (simp add: dup_encoder_def)
  have a: "dict_get (encoder dup_encoder) [97] = Some 97"
    using example_vocab_single [of 97] dup_vocab_get [of "[97]" 97]
    by (simp add: dup_encoder_def byte_char_def)
  have "findall (pat dup_encoder) (str_of ''a'') = [[97]]"
    by (simp add: dup_encoder_def example_class_def str_of_def pat_match_def re_lit_def
      re_plus_def re_opt_space_plus_def re_space_lookahead_def apostrophe_def space_def Let_def)
  then have p: "part_ids dup_encoder (str_of ''a'') = Inr [97]"
    using chunk_ids_single [OF dup_reachable _ _ a] by (simp add: part_ids_def byte_char_def)
  have ne: "endoftext \<noteq> []"
    by (simp add: endoftext_explicit)
  have "\<not> sublist endoftext (str_of ''a'')"
    by (rule short_not_sublist) (simp add: endoftext_explicit str_of_def)
  then have "str_split endoftext (str_of ''a'') = [str_of ''a'']"
    using ne by (intro str_split_absent)
  then show ?thesis
    using encode_ids [OF dup_reachable m, of "str_of ''a''"] p by simp
qed

lemma dup_decode: "decode dup_encoder [97] = Inr (str_of ''zz'')"
proof -
  have "dict_get (decoder dup_encoder) 97 = Some (str_of ''zz'')"
    by (simp add: dup_encoder_def dup_vocab_def dict_invert_def dict_of_get)
  moreover have "dict_get (byte_decoder dup_encoder) 122 = Some 122"
    using byte_decoder_get [of 122] by (simp add: dup_encoder_def byte_char_def)
  moreover have "errors dup_encoder = Replace"
    by (simp add: dup_encoder_def)
  ultimately show ?thesis
    by (simp add: decode_def lookup_def str_of_def utf8_next_def)
qed

lemma bare_vocab_closed:
  "bare_vocab =
     map (\<lambda>b. ([byte_char b], int b)) (printable_bytes @ other_bytes) @ [(endoftext, 256)]"
  by (simp add: bare_vocab_def bytes_to_unicode_closed)

lemma bare_vocab_long:
  "length k \<noteq> 1 \<Longrightarrow> dict_get bare_vocab k = map_of [(endoftext, 256)] k"
proof -
  assume k: "length k \<noteq> 1"
  let ?xs = "map (\<lambda>b. ([byte_char b], int b)) (printable_bytes @ other_bytes)"
  have keys: "fst ` set ?xs = (\<lambda>b. [byte_char b]) ` {0..<256}"
    by (simp only: set_map image_image fst_conv set_all_bytes)
  have "k \<notin> fst ` set ?xs"
    unfolding keys using k by auto
  then show ?thesis
    unfolding bare_vocab_closed by (rule dict_get_append_second)
qed

lemma bare_reachable: "reachable bare_encoder"
proof -
  have "dict_get bare_vocab endoftext = Some 256"
    using bare_vocab_long [of endoftext] by (simp add: endoftext_explicit)
  then have "dict_mem endoftext bare_vocab"
    by (simp add: dict_mem_def)
  then have "Encoder_init bare_vocab example_merges Replace example_class = Inr bare_encoder"
    by (simp add: Encoder_init_def bare_encoder_def)
  then show ?thesis by (rule reachable.init)
qed

lemma bare_covers_alphabet: "covers_alphabet bare_encoder"
proof -
  have "dict_mem [byte_char b] bare_vocab" if b: "b < 256" for b
  proof -
    have "inj_on (\<lambda>b. [byte_char b]) (set (printable_bytes @ other_bytes))"
      unfolding set_all_bytes by (auto simp: inj_on_def dest: byte_char_inj)
    moreover have "b \<in> set (printable_bytes @ other_bytes)"
      unfolding set_all_bytes using b by simp
    ultimately have "map_of (map (\<lambda>b. ([byte_char b], int b)) (printable_bytes @ other_bytes))
        [byte_char b] = Some (int b)"
      by (rule map_of_map_keys)
    then have "dict_get bare_vocab [byte_char b] = Some (int b)"
      unfolding bare_vocab_closed by (rule dict_get_append_first)
    then show ?thesis by (simp add: dict_mem_def)
  qed
  then show ?thesis
    unfolding covers_alphabet_def snd_bytes_to_unicode
    by (auto simp: bare_encoder_def)
qed

lemma bare_encode_ab:
  "encode bare_encoder (str_of ''ab'') = Inl (KeyError (KeyStr (str_of ''ab'')))"
proof -
  have m: "dict_get (encoder bare_encoder) endoftext = Some 256"
    using bare_vocab_long [of endoftext] by (simp add: bare_encoder_def endoftext_explicit)
  have absent: "dict_get (encoder bare_encoder) [97, 98] = None"
    using bare_vocab_long [of "[97, 98]"] by (simp add: bare_encoder_def endoftext_explicit)
  have b: "bpe_value bare_encoder [97, 98] = Inr [97, 98]"
    by (simp add: bpe_value_def bpe_def bare_encoder_def example_merges_def str_of_def
      dict_get_def get_pairs_def bpe_loop.simps py_min_def rank_key_def dict_of_def dict_set_def
      dict_mem_def merge_loop_pass evict.simps space_def upt_rec_numeral Let_def)
  have be: "byte_encoder bare_encoder = bytes_to_unicode"
    by (simp add: bare_encoder_def)
  have c: "chunk_ids bare_encoder [97, 98] = Inl (KeyError (KeyStr [97, 98]))"
    by (simp add: chunk_ids_unfold utf8_char_def lookup_def be byte_encoder_get byte_char_def
      b absent space_def)
  have "findall (pat bare_encoder) (str_of ''ab'') = [[97, 98]]"
    by (simp add: bare_encoder_def example_class_def str_of_def pat_match_def re_lit_def
      re_plus_def re_opt_space_plus_def re_space_lookahead_def apostrophe_def space_def Let_def)
  then have p: "part_ids bare_encoder (str_of ''ab'') = Inl (KeyError (KeyStr [97, 98]))"
    using c by (simp add: part_ids_def)
  have ne: "endoftext \<noteq> []"
    by (simp add: endoftext_explicit)
  have "\<not> sublist endoftext (str_of ''ab'')"
    by (rule short_not_sublist) (simp add: endoftext_explicit str_of_def)
  then have "str_split endoftext (str_of ''ab'') = [str_of ''ab'']"
    using ne by (intro str_split_absent)
  then have "outcome (encode bare_encoder (str_of ''ab'')) = Inl (KeyError (KeyStr [97, 98]))"
    using encode_ids [OF bare_reachable m, of "str_of ''ab''"] p by simp
  then show ?thesis
    by (simp add: outcome_Inl str_of_def)
qed

section \<open>Properties of the specification\<close>

text \<open>
  C1, as amended. Round trip. For an object whose vocabulary has unique ids and holds a
  symbol for each character of the byte-level alphabet and for the result of each rule of
  the merge table, and for every text of Unicode scalar values (the empty text, white
  space, any script, emoji and control characters are such texts), \<open>encode\<close> returns a
  list of ids and \<open>decode\<close> of this list returns the text, under every error policy of
  \<open>decode\<close> and in the state before and after the call of \<open>encode\<close>.
\<close>

theorem encode_decode_round_trip:
  assumes "reachable self" and "covers self" and "unique_ids (encoder self)"
    and "valid_text t"
  shows "\<exists>ids self'. encode self t = Inr (ids, self') \<and> decode self' ids = Inr t \<and>
           decode self ids = Inr t"
proof -
  from reachable_encoder [OF assms(1)] obtain m where m: "dict_get (encoder self) endoftext = Some m"
    by (auto simp: dict_mem_def)
  have ne: "endoftext \<noteq> []"
    by (simp add: endoftext_explicit)
  let ?parts = "str_split endoftext t"
  have joined: "str_join endoftext ?parts = t"
    using ne by (rule str_split_join)
  have "\<forall>part\<in>set ?parts. \<forall>c\<in>set part. scalar c"
  proof
    fix part assume "part \<in> set ?parts"
    from set_str_join [OF this, of endoftext] have "set part \<subseteq> set t"
      by (simp add: joined)
    then show "\<forall>c\<in>set part. scalar c"
      using assms(4) by (auto simp: valid_text_def)
  qed
  from parts_round [OF assms(1,2) m str_split_nonempty this]
  obtain idss syms bs where
    r: "map_err (part_ids self) ?parts = Inr idss" "utf8_encode t = Inr bs"
      "\<forall>b\<in>set bs. b < 256" "symbol_ids (encoder self) syms (join_ids m idss)"
      "concat syms = map byte_char bs"
    unfolding joined by blast
  have "outcome (encode self t) = Inr (join_ids m idss)"
    using encode_ids [OF assms(1) m, of t] r(1) by simp
  then obtain self' where enc: "encode self t = Inr (join_ids m idss, self')"
    by (auto simp: outcome_Inr)
  from utf8_decode_encode [of t "errors self"] assms(4) r(2)
  have "utf8_decode (errors self) bs = Inr t"
    by (auto simp: valid_text_def)
  from decode_round [OF assms(1,3) r(4,5,3) this]
  have dec: "decode self (join_ids m idss) = Inr t" .
  from encode_parts_state [OF enc [unfolded encode_def]]
  obtain c where "self' = self\<lparr>cache := c\<rparr>" ..
  then have "decode self' (join_ids m idss) = Inr t"
    using dec by simp
  with enc dec show ?thesis by blast
qed

theorem encode_decode_round_trip_witness:
  "reachable example_encoder \<and> covers example_encoder \<and>
   unique_ids (encoder example_encoder) \<and> valid_text example_text \<and>
   (\<exists>ids self'. encode example_encoder example_text = Inr (ids, self') \<and>
      decode self' ids = Inr example_text)"
  using encode_decode_round_trip [OF example_reachable example_covers example_unique_ids example_valid_text]
    example_reachable example_covers example_unique_ids example_valid_text
  by blast

text \<open>
  C1 as stated, with the alphabet covered and no more, does not hold: \<open>__init__\<close> checks
  neither that the ids are unique nor that the results of the merge rules are symbols.
  Where \<open>zz\<close> has the id of \<open>a\<close>, \<open>encode\<close> of \<open>a\<close> gives the id 97 and \<open>decode\<close> gives \<open>zz\<close>
  back. Where the merge table has the rule for \<open>a\<close> and \<open>b\<close> and the vocabulary has no
  symbol \<open>ab\<close>, \<open>encode\<close> of \<open>ab\<close> raises \<open>KeyError\<close>.
\<close>

theorem round_trip_counterexample:
  "reachable dup_encoder \<and> covers dup_encoder \<and> valid_text (str_of ''a'') \<and>
   outcome (encode dup_encoder (str_of ''a'')) = Inr [97] \<and>
   decode dup_encoder [97] = Inr (str_of ''zz'') \<and> str_of ''zz'' \<noteq> str_of ''a'' \<and>
   reachable bare_encoder \<and> covers_alphabet bare_encoder \<and> valid_text (str_of ''ab'') \<and>
   encode bare_encoder (str_of ''ab'') = Inl (KeyError (KeyStr (str_of ''ab'')))"
proof -
  have "valid_text (str_of ''a'')" and "valid_text (str_of ''ab'')"
    by (simp_all add: valid_text_def str_of_def scalar_def)
  moreover have "str_of ''zz'' \<noteq> str_of ''a''"
    by (simp add: str_of_def)
  ultimately show ?thesis
    using dup_reachable dup_covers dup_encode_a dup_decode bare_reachable bare_covers_alphabet
      bare_encode_ab
    by simp
qed

text \<open>
  C2. \<open>encode\<close> splits the text on the separator and returns the ids of the fragments, in
  order, with the id of the separator between two neighbours: N fragments are joined by
  N - 1 separator ids, none before the first fragment and none after the last. No
  fragment contains the separator string, so the pattern and the merges never see it, and
  the fragments joined by the separator are the text. For texts \<open>a\<close> and \<open>b\<close> without the
  separator, the ids of \<open>a + "<|endoftext|>" + b\<close> are the ids of \<open>a\<close>, the separator id and
  the ids of \<open>b\<close>; an error of \<open>encode(a)\<close> or \<open>encode(b)\<close> is the error of the whole call.
\<close>

theorem separator_atomic:
  assumes "reachable self"
  shows "\<exists>m. dict_get (encoder self) endoftext = Some m \<and>
           outcome (encode self input) =
             (case map_err (part_ids self) (str_split endoftext input) of
                Inl e \<Rightarrow> Inl e
              | Inr idss \<Rightarrow> Inr (join_ids m idss)) \<and>
           (\<forall>idss. idss \<noteq> [] \<longrightarrow>
              length (join_ids m idss) = sum_list (map length idss) + (length idss - 1)) \<and>
           (\<forall>part\<in>set (str_split endoftext input). \<not> sublist endoftext part) \<and>
           str_join endoftext (str_split endoftext input) = input \<and>
           (\<not> sublist endoftext a \<and> \<not> sublist endoftext b \<longrightarrow>
              outcome (encode self (a @ endoftext @ b)) =
                (case outcome (encode self a) of
                   Inl e \<Rightarrow> Inl e
                 | Inr xs \<Rightarrow>
                     (case outcome (encode self b) of
                        Inl e \<Rightarrow> Inl e
                      | Inr ys \<Rightarrow> Inr (xs @ [m] @ ys))))"
proof -
  from reachable_encoder [OF assms] obtain m where m: "dict_get (encoder self) endoftext = Some m"
    by (auto simp: dict_mem_def)
  have ne: "endoftext \<noteq> []"
    by (simp add: endoftext_explicit)
  note ids = encode_ids [OF assms m]
  have frag: "\<forall>part\<in>set (str_split endoftext input). \<not> sublist endoftext part"
    using str_split_fragments [OF ne] by blast
  have joined: "str_join endoftext (str_split endoftext input) = input"
    using ne by (rule str_split_join)
  have ab: "outcome (encode self (a @ endoftext @ b)) =
      (case outcome (encode self a) of
         Inl e \<Rightarrow> Inl e
       | Inr xs \<Rightarrow>
           (case outcome (encode self b) of
              Inl e \<Rightarrow> Inl e
            | Inr ys \<Rightarrow> Inr (xs @ [m] @ ys)))"
    if na: "\<not> sublist endoftext a" and nb: "\<not> sublist endoftext b"
  proof -
    have "str_split endoftext (a @ endoftext @ b) = [a, b]"
      using str_split_endoftext_append [OF na, of b] str_split_absent [OF ne nb] by simp
    moreover have "str_split endoftext a = [a]" "str_split endoftext b = [b]"
      using str_split_absent [OF ne] na nb by simp_all
    ultimately show ?thesis
      using ids [of "a @ endoftext @ b"] ids [of a] ids [of b]
      by (simp split: sum.splits)
  qed
  show ?thesis
    using m ids [of input] length_join_ids frag joined ab by blast
qed

theorem separator_atomic_witness:
  "reachable example_encoder \<and>
   \<not> sublist endoftext (str_of ''a'') \<and> \<not> sublist endoftext (str_of ''b'') \<and>
   outcome (encode example_encoder (str_of ''a'')) = Inr [97] \<and>
   outcome (encode example_encoder (str_of ''b'')) = Inr [98] \<and>
   outcome (encode example_encoder (str_of ''a'' @ endoftext @ str_of ''b'')) = Inr [97, 257, 98]"
proof -
  have na: "\<not> sublist endoftext (str_of ''a'')" and nb: "\<not> sublist endoftext (str_of ''b'')"
    by (rule short_not_sublist, simp add: endoftext_explicit str_of_def)+
  have ne: "endoftext \<noteq> []"
    by (simp add: endoftext_explicit)
  from separator_atomic [OF example_reachable, of "str_of ''a''" "str_of ''a''" "str_of ''b''"]
  obtain m where m: "dict_get (encoder example_encoder) endoftext = Some m"
    and a: "outcome (encode example_encoder (str_of ''a'')) =
      (case map_err (part_ids example_encoder) (str_split endoftext (str_of ''a'')) of
         Inl e \<Rightarrow> Inl e | Inr idss \<Rightarrow> Inr (join_ids m idss))"
    and ab: "outcome (encode example_encoder (str_of ''a'' @ endoftext @ str_of ''b'')) =
      (case outcome (encode example_encoder (str_of ''a'')) of
         Inl e \<Rightarrow> Inl e
       | Inr xs \<Rightarrow>
           (case outcome (encode example_encoder (str_of ''b'')) of
              Inl e \<Rightarrow> Inl e
            | Inr ys \<Rightarrow> Inr (xs @ [m] @ ys)))"
    using na nb by blast
  from separator_atomic [OF example_reachable, of "str_of ''b''" "[]" "[]"]
  obtain m' where m': "dict_get (encoder example_encoder) endoftext = Some m'"
    and b: "outcome (encode example_encoder (str_of ''b'')) =
      (case map_err (part_ids example_encoder) (str_split endoftext (str_of ''b'')) of
         Inl e \<Rightarrow> Inl e | Inr idss \<Rightarrow> Inr (join_ids m' idss))"
    by blast
  have "m = 257" using m example_sep_id by simp
  moreover have "outcome (encode example_encoder (str_of ''a'')) = Inr [97]"
    using a by (simp add: str_split_absent [OF ne na] example_part_a)
  moreover have "outcome (encode example_encoder (str_of ''b'')) = Inr [98]"
    using b by (simp add: str_split_absent [OF ne nb] example_part_b)
  ultimately show ?thesis
    using ab na nb example_reachable by simp
qed

text \<open>
  C3. \<open>bpe\<close> is the greedy merge algorithm. On a non-empty chunk it returns the symbols,
  joined by spaces, that the algorithm of the specification computes from one
  single-character symbol per position: select the adjacent pair of lowest rank, stop when
  no adjacent pair is in the table or one symbol is left, merge all non-overlapping
  occurrences of the pair from left to right. The index loop of the source is this pass,
  the result does not depend on the order in which the set of pairs is iterated, and a
  chunk of one character is returned as it is.
\<close>

theorem bpe_greedy_merge:
  assumes "reachable self"
  shows "(token \<noteq> [] \<longrightarrow>
            outcome (bpe self token) =
              Inr (str_join [space] (greedy (bpe_ranks self) (map (\<lambda>c. [c]) token)))) \<and>
         outcome (bpe self [c]) = Inr [c] \<and>
         merge_loop word first second 0 [] = merge_pass first second word \<and>
         (pairs \<noteq> [] \<and> set pairs = set (zip word (tl word)) \<longrightarrow>
            bpe_loop (bpe_ranks self) word pairs = Inr (greedy (bpe_ranks self) word))"
proof -
  have inj: "ranks_inj (bpe_ranks self)"
    using assms by (rule reachable_ranks_inj)
  have v: "outcome (bpe self t) =
      Inr (str_join [space] (greedy (bpe_ranks self) (map (\<lambda>c. [c]) t)))" if "t \<noteq> []" for t
    using bpe_transparent [OF assms, of t] bpe_value_greedy [OF inj that] by simp
  have "greedy (bpe_ranks self) [[c]] = [[c]]"
    by (simp add: greedy_stop)
  with v [of "[c]"] have one: "outcome (bpe self [c]) = Inr [c]"
    by simp
  show ?thesis
    using v one merge_loop_pass bpe_loop_greedy [OF inj] by blast
qed

theorem bpe_greedy_merge_witness:
  "reachable example_encoder \<and> str_of ''ab'' \<noteq> [] \<and>
   outcome (bpe example_encoder (str_of ''ab'')) = Inr (str_of ''ab'') \<and>
   str_join [space] (greedy (bpe_ranks example_encoder) (map (\<lambda>c. [c]) (str_of ''ab''))) = str_of ''ab'' \<and>
   outcome (bpe example_encoder (str_of ''a'')) = Inr (str_of ''a'') \<and>
   [(str_of ''a'', str_of ''b'')] \<noteq> [] \<and>
   set [(str_of ''a'', str_of ''b'')] = set (zip [str_of ''a'', str_of ''b''] (tl [str_of ''a'', str_of ''b''])) \<and>
   bpe_loop (bpe_ranks example_encoder) [str_of ''a'', str_of ''b''] [(str_of ''a'', str_of ''b'')] =
     Inr (greedy (bpe_ranks example_encoder) [str_of ''a'', str_of ''b''])"
proof -
  have ne: "str_of ''ab'' \<noteq> []"
    by (simp add: str_of_def)
  have a: "str_of ''a'' = [97]"
    by (simp add: str_of_def)
  from bpe_greedy_merge [OF example_reachable, of "str_of ''ab''" 97
      "[str_of ''a'', str_of ''b'']" "[]" "[]" "[(str_of ''a'', str_of ''b'')]"]
    ne example_bpe_ab a example_reachable
  show ?thesis by simp
qed

text \<open>
  C4. The table of \<open>bytes_to_unicode\<close> is a bijection on the 256 byte values: it has 256
  entries, its keys are the bytes 0 to 255, no two entries share a key or a value, and
  looking a byte up and then looking the result up in \<open>byte_decoder\<close> gives the byte
  back. The table takes no input: every object, in every state, holds this same table and
  its inverse.
\<close>

theorem bytes_to_unicode_bijection:
  assumes "reachable self"
  shows "byte_encoder self = bytes_to_unicode \<and>
         byte_decoder self = dict_invert bytes_to_unicode \<and>
         (\<forall>b<256. \<exists>c. dict_get (byte_encoder self) b = Some c \<and>
                        dict_get (byte_decoder self) c = Some b) \<and>
         length bytes_to_unicode = 256 \<and>
         set (map fst bytes_to_unicode) = {0..<256} \<and>
         distinct (map fst bytes_to_unicode) \<and>
         distinct (map snd bytes_to_unicode) \<and>
         set (map fst (dict_invert bytes_to_unicode)) = set (map snd bytes_to_unicode)"
proof -
  have maps: "byte_encoder self = bytes_to_unicode" "byte_decoder self = dict_invert bytes_to_unicode"
    using reachable_byte_maps [OF assms] by simp_all
  have rt: "\<forall>b<256. \<exists>c. dict_get (byte_encoder self) b = Some c \<and>
      dict_get (byte_decoder self) c = Some b"
    by (simp add: maps byte_encoder_get byte_decoder_get)
  have keys: "set (map fst bytes_to_unicode) = {0..<256}"
    by (simp only: bytes_to_unicode_keys set_all_bytes)
  have dk: "distinct (map fst bytes_to_unicode)"
    by (simp only: bytes_to_unicode_keys distinct_all_bytes)
  have inv: "set (map fst (dict_invert bytes_to_unicode)) = set (map snd bytes_to_unicode)"
    using dict_invert_keys [of bytes_to_unicode] by simp
  show ?thesis
    using maps rt keys dk inv length_bytes_to_unicode bytes_to_unicode_distinct_values
    by blast
qed

theorem bytes_to_unicode_bijection_witness:
  "reachable example_encoder \<and>
   (\<exists>c. dict_get (byte_encoder example_encoder) 32 = Some c \<and>
        dict_get (byte_decoder example_encoder) c = Some 32)"
proof -
  have "(32::nat) < 256" by simp
  with bytes_to_unicode_bijection [OF example_reachable] example_reachable
  show ?thesis by blast
qed

text \<open>
  C5. \<open>bpe\<close> is a function of the chunk and the rank table: two states of an object that
  differ in the cache only, such as a state with a populated cache and the state with the
  cache cleared, give the same merged string or the same error for every chunk, and
  \<open>encode\<close> gives the same ids or the same error for every text.
\<close>

theorem cache_transparent:
  assumes "reachable s1" and "reachable s2" and "s2 = s1\<lparr>cache := cache s2\<rparr>"
  shows "outcome (bpe s1 token) = outcome (bpe s2 token) \<and>
         outcome (encode s1 input) = outcome (encode s2 input) \<and>
         reachable (s1\<lparr>cache := []\<rparr>) \<and>
         outcome (bpe s1 token) = outcome (bpe (s1\<lparr>cache := []\<rparr>) token) \<and>
         outcome (encode s1 input) = outcome (encode (s1\<lparr>cache := []\<rparr>) input)"
proof -
  have same: "outcome (bpe a token) = outcome (bpe b token) \<and>
      outcome (encode a input) = outcome (encode b input)"
    if a: "reachable a" and b: "reachable b" and eq: "b = a\<lparr>cache := c\<rparr>" for a b c
  proof -
    from reachable_encoder [OF a] obtain m where m: "dict_get (encoder a) endoftext = Some m"
      by (auto simp: dict_mem_def)
    then have m': "dict_get (encoder b) endoftext = Some m"
      by (simp add: eq)
    have "bpe_value b token = bpe_value a token" "part_ids b = part_ids a"
      by (simp_all add: eq)
    then show ?thesis
      using bpe_transparent [OF a, of token] bpe_transparent [OF b, of token]
        encode_ids [OF a m, of input] encode_ids [OF b m', of input]
      by simp
  qed
  have clear: "reachable (s1\<lparr>cache := []\<rparr>)"
    using assms(1) by (rule reachable_clear)
  show ?thesis
    using same [OF assms(1,2,3)] same [OF assms(1) clear refl] clear by simp
qed

theorem cache_transparent_witness:
  "reachable example_encoder \<and> reachable example_encoder_warm \<and>
   example_encoder_warm = example_encoder\<lparr>cache := cache example_encoder_warm\<rparr> \<and>
   dict_get (cache example_encoder_warm) (str_of ''ab'') = Some (str_of ''ab'') \<and>
   dict_get (cache example_encoder) (str_of ''ab'') = None \<and>
   outcome (bpe example_encoder (str_of ''ab'')) = outcome (bpe example_encoder_warm (str_of ''ab'')) \<and>
   outcome (encode example_encoder (str_of ''ab'')) = outcome (encode example_encoder_warm (str_of ''ab''))"
proof -
  have eq: "example_encoder_warm = example_encoder\<lparr>cache := cache example_encoder_warm\<rparr>"
    by (simp add: example_encoder_warm_def)
  have "dict_get (cache example_encoder_warm) (str_of ''ab'') = Some (str_of ''ab'')"
    by (simp add: example_encoder_warm_def dict_get_def)
  moreover have "dict_get (cache example_encoder) (str_of ''ab'') = None"
    by (simp add: example_encoder_def dict_get_def)
  ultimately show ?thesis
    using cache_transparent [OF example_reachable example_warm_reachable eq,
        of "str_of ''ab''" "str_of ''ab''"]
      example_reachable example_warm_reachable eq
    by simp
qed

text \<open>
  C6. Construction checks the vocabulary for the separator: without the key
  \<open><|endoftext|>\<close>, \<open>__init__\<close> raises \<open>ValueError\<close>, whatever the merge list and the other
  arguments are, and so does the construction of the accelerated tokenizer once the
  library objects are built; with the key, construction returns the object.
\<close>

theorem init_separator_check:
  "(\<not> dict_mem endoftext enc \<longrightarrow>
      Encoder_init enc bpe_merges errs cc = Inl ValueError \<and>
      HighSpeedTokenizer_init (Inr tokenizer) (Inr enc) = Inl ValueError \<and>
      isl (HighSpeedTokenizer_init built (Inr enc))) \<and>
   (dict_mem endoftext enc \<longrightarrow>
      (\<exists>self. Encoder_init enc bpe_merges errs cc = Inr self \<and> encoder self = enc) \<and>
      HighSpeedTokenizer_init (Inr tokenizer) (Inr enc) = Inr (tokenizer, enc))"
  by (auto simp: Encoder_init_def HighSpeedTokenizer_init_def Let_def split: sum.splits)

theorem init_separator_check_witness:
  "\<not> dict_mem endoftext tiny_vocab_without \<and>
   Encoder_init tiny_vocab_without [] Replace example_class = Inl ValueError \<and>
   dict_mem endoftext tiny_vocab \<and>
   (\<exists>self. Encoder_init tiny_vocab [] Replace example_class = Inr self \<and> encoder self = tiny_vocab)"
proof -
  have a: "\<not> dict_mem endoftext tiny_vocab_without"
    by (simp add: dict_mem_def dict_get_def tiny_vocab_without_def endoftext_def str_of_def)
  have b: "dict_mem endoftext tiny_vocab"
    by (simp add: dict_mem_def dict_get_def tiny_vocab_def endoftext_def str_of_def)
  from a b init_separator_check [of tiny_vocab_without "[]" Replace example_class "()" "Inr ()"]
    init_separator_check [of tiny_vocab "[]" Replace example_class "()" "Inr ()"]
  show ?thesis by blast
qed

text \<open>
  C7. \<open>decode\<close> of a list that holds an id the vocabulary does not define raises the
  \<open>KeyError\<close> of the vocabulary lookup (the unknown-id error of the specification), for
  the first such id of the list; it returns no text, neither a placeholder nor a part of
  the result.
\<close>

theorem decode_unknown_id:
  assumes "reachable self" and "t \<in> set tokens" and "t \<notin> snd ` set (encoder self)"
  shows "decode self tokens =
           Inl (KeyError (KeyInt (hd (filter (\<lambda>t. t \<notin> snd ` set (encoder self)) tokens))))"
proof -
  let ?f = "\<lambda>token. lookup (decoder self) token (KeyInt token)"
  have dec: "decoder self = dict_invert (encoder self)"
    using reachable_encoder [OF assms(1)] by simp
  have isl: "isl (?f x) \<longleftrightarrow> x \<notin> snd ` set (encoder self)" for x
    using dict_invert_get_None [of "encoder self" x]
    by (auto simp: lookup_def dec split: option.splits)
  then have "isl (?f t)"
    using assms(3) by simp
  from map_err_Inl [of t tokens ?f, OF assms(2) this]
  obtain e where e: "map_err ?f tokens = Inl e" "?f (hd (filter (\<lambda>x. isl (?f x)) tokens)) = Inl e"
    by blast
  have "e = KeyError (KeyInt (hd (filter (\<lambda>x. isl (?f x)) tokens)))"
    using e(2) by (auto simp: lookup_def split: option.splits)
  then show ?thesis
    using e(1) by (simp add: decode_def isl)
qed

theorem decode_unknown_id_witness:
  "reachable tiny_encoder \<and> 999999 \<in> set [999999 :: int] \<and>
   999999 \<notin> snd ` set (encoder tiny_encoder) \<and>
   decode tiny_encoder [999999] = Inl (KeyError (KeyInt 999999))"
proof -
  have a: "999999 \<notin> snd ` set (encoder tiny_encoder)"
    by (simp add: tiny_encoder_def tiny_vocab_def)
  have b: "999999 \<in> set [999999 :: int]"
    by simp
  from decode_unknown_id [OF tiny_reachable b a] a tiny_reachable
  show ?thesis by simp
qed

text \<open>
  C8. \<open>encode\<close> of the empty string returns the empty list of ids and leaves the object
  as it is; \<open>decode\<close> of the empty list returns the empty string.
\<close>

theorem encode_decode_empty:
  assumes "reachable self"
  shows "encode self [] = Inr ([], self) \<and> decode self [] = Inr []"
proof -
  have "dict_mem endoftext (encoder self)"
    using reachable_encoder [OF assms] by simp
  then obtain m where "dict_get (encoder self) endoftext = Some m"
    by (auto simp: dict_mem_def)
  then have "encode self [] = Inr ([], self)"
    by (simp add: encode_def lookup_def)
  moreover have "decode self [] = Inr []"
    by (simp add: decode_def)
  ultimately show ?thesis by simp
qed

theorem encode_decode_empty_witness:
  "reachable example_encoder \<and> encode example_encoder [] = Inr ([], example_encoder) \<and>
   decode example_encoder [] = Inr []"
  using encode_decode_empty [OF example_reachable] example_reachable by simp



text \<open>
  C10. The chunks that the pattern finds in a part are non-empty and their concatenation
  is the part. Hence the token built from the bytes of a chunk is non-empty, \<open>bpe\<close>
  returns on it, and \<open>encode\<close> never raises the \<open>IndexError\<close> of \<open>word[0]\<close> in
  \<open>get_pairs\<close>.
\<close>

theorem chunks_nonempty:
  "concat (findall (pat self) part) = part \<and>
   [] \<notin> set (findall (pat self) part) \<and>
   (\<forall>chunk bs token.
      chunk \<in> set (findall (pat self) part) \<longrightarrow>
      utf8_encode chunk = Inr bs \<longrightarrow>
      map_err (\<lambda>b. lookup (byte_encoder self) b (KeyInt (int b))) bs = Inr token \<longrightarrow>
      token \<noteq> [] \<and> (\<exists>merged self'. bpe self token = Inr (merged, self'))) \<and>
   encode self input \<noteq> Inl IndexError"
proof -
  have chunks: "concat (findall (pat self) part) = part" "[] \<notin> set (findall (pat self) part)"
    using findall_chunks [of "pat self" part] by simp_all
  have "token \<noteq> [] \<and> (\<exists>merged self'. bpe self token = Inr (merged, self'))"
    if "chunk \<in> set (findall (pat self) part)" and "utf8_encode chunk = Inr bs"
      and "map_err (\<lambda>b. lookup (byte_encoder self) b (KeyInt (int b))) bs = Inr token"
    for chunk bs token
  proof -
    have "chunk \<noteq> []" using that(1) chunks(2) by auto
    from surrogate_token_nonempty [OF this that(2,3)] show ?thesis
      using bpe_returns by blast
  qed
  moreover have "encode self input \<noteq> Inl IndexError"
    unfolding encode_def by (rule encode_parts_no_IndexError)
  ultimately show ?thesis
    using chunks by blast
qed

theorem chunks_nonempty_witness:
  "findall (pat example_encoder) (str_of ''a b'') = [str_of ''a'', str_of '' b''] \<and>
   concat [str_of ''a'', str_of '' b''] = str_of ''a b'' \<and>
   utf8_encode (str_of '' b'') = Inr [32, 98] \<and>
   map_err (\<lambda>b. lookup (byte_encoder example_encoder) b (KeyInt (int b))) [32, 98] = Inr [288, 98] \<and>
   (\<exists>merged self'. bpe example_encoder [288, 98] = Inr (merged, self')) \<and>
   encode example_encoder (str_of ''a b'') \<noteq> Inl IndexError"
proof -
  have mem: "str_of '' b'' \<in> set (findall (pat example_encoder) (str_of ''a b''))"
    by (simp add: example_findall)
  from chunks_nonempty [of example_encoder "str_of ''a b''" "str_of ''a b''"]
    example_surrogates mem example_findall
  show ?thesis by (simp add: str_of_def)
qed

end
